theory Spec2Isabelle
  imports Main "HOL-Library.AList"
begin

section \<open>Values of a loaded \<^verbatim>\<open>flower.toml\<close>\<close>

text \<open>
  \<^verbatim>\<open>tomli.loads\<close> returns a \<^verbatim>\<open>Dict[str, Any]\<close>: the values are strings, integers,
  floats, booleans, dates and times, arrays and nested tables. The validators never
  look inside a float or a date, so both carry their TOML literal only. A table is an
  association list in insertion order, as a Python \<^verbatim>\<open>dict\<close> iterates; a Python
  \<^verbatim>\<open>dict\<close> binds every key once (\<open>wf_dict\<close> below). A string is the list of the
  bytes of its UTF-8 encoding: splitting at \<^verbatim>\<open>:\<close> and \<^verbatim>\<open>.\<close> and searching for an
  ASCII name give the same result on the bytes as on the code points.
\<close>

datatype pyval =
    Str string
  | Integer int
  | Float string
  | Boolean bool
  | Datetime string
  | Array "pyval list"
  | Table "(string \<times> pyval) list"

type_synonym dict = "(string \<times> pyval) list"

fun is_table :: "pyval \<Rightarrow> bool" where
  "is_table (Table d) = True"
| "is_table v = False"

text \<open>The exceptions the code can meet, named by the built-in class a handler matches.\<close>

datatype exn =
    TypeError
  | KeyError
  | AttributeError
  | ModuleNotFoundError
  | ImportError
  | RuntimeError
  | RecursionError
  | OtherException string

text \<open>Sequencing of statements that may raise: the first exception ends the run.\<close>

primrec exn_bind :: "exn + 'a \<Rightarrow> ('a \<Rightarrow> exn + 'b) \<Rightarrow> exn + 'b" where
  "exn_bind (Inl e) f = Inl e"
| "exn_bind (Inr a) f = f a"

subsection \<open>The Python operators the validators use\<close>

primrec is_prefix :: "string \<Rightarrow> string \<Rightarrow> bool" where
  "is_prefix [] s = True"
| "is_prefix (c # cs) s = (case s of [] \<Rightarrow> False | d # ds \<Rightarrow> c = d \<and> is_prefix cs ds)"

text \<open>\<^verbatim>\<open>sub in s\<close> on two strings: \<open>sub\<close> occurs in \<open>s\<close> as a contiguous run.\<close>

primrec substring :: "string \<Rightarrow> string \<Rightarrow> bool" where
  "substring sub [] = (sub = [])"
| "substring sub (c # cs) = (is_prefix sub (c # cs) \<or> substring sub cs)"

definition dict_has :: "dict \<Rightarrow> string \<Rightarrow> bool" where
  "dict_has d key = (map_of d key \<noteq> None)"

text \<open>
  \<^verbatim>\<open>key in container\<close> for a string \<open>key\<close>: key membership on a table, substring
  search on a string, element equality on an array, and \<^verbatim>\<open>TypeError\<close> (argument is
  not iterable) on every other value.
\<close>

fun py_contains :: "pyval \<Rightarrow> string \<Rightarrow> exn + bool" where
  "py_contains (Table d) key = Inr (dict_has d key)"
| "py_contains (Str s) key = Inr (substring key s)"
| "py_contains (Array xs) key = Inr (Str key \<in> set xs)"
| "py_contains (Integer i) key = Inl TypeError"
| "py_contains (Float f) key = Inl TypeError"
| "py_contains (Boolean b) key = Inl TypeError"
| "py_contains (Datetime t) key = Inl TypeError"

text \<open>
  \<^verbatim>\<open>container[key]\<close> for a string \<open>key\<close>: the bound value or \<^verbatim>\<open>KeyError\<close> on a
  table, \<^verbatim>\<open>TypeError\<close> on every other value (string and list indices must be
  integers; the scalars are not subscriptable).
\<close>

fun py_getitem :: "pyval \<Rightarrow> string \<Rightarrow> exn + pyval" where
  "py_getitem (Table d) key = (case map_of d key of None \<Rightarrow> Inl KeyError | Some v \<Rightarrow> Inr v)"
| "py_getitem (Str s) key = Inl TypeError"
| "py_getitem (Array xs) key = Inl TypeError"
| "py_getitem (Integer i) key = Inl TypeError"
| "py_getitem (Float f) key = Inl TypeError"
| "py_getitem (Boolean b) key = Inl TypeError"
| "py_getitem (Datetime t) key = Inl TypeError"

section \<open>\<^verbatim>\<open>validate_flower_toml_fields\<close>\<close>

text \<open>\<^verbatim>\<open>if key not in container: msgs.append(msg)\<close>, returning the list.\<close>

definition append_if_missing ::
  "pyval \<Rightarrow> string \<Rightarrow> string \<Rightarrow> string list \<Rightarrow> exn + string list" where
  "append_if_missing container key msg msgs =
     exn_bind (py_contains container key)
       (\<lambda>present. Inr (if \<not> present then msgs @ [msg] else msgs))"

text \<open>Lines 47 to 59: the \<^verbatim>\<open>[project]\<close> section, on the pair of lists built so far.\<close>

definition check_project ::
  "dict \<Rightarrow> string list \<times> string list \<Rightarrow> exn + (string list \<times> string list)" where
  \<open>check_project config acc =
     (case acc of (errors, warnings) \<Rightarrow>
       if \<not> dict_has config ''project''
       then Inr (errors @ [''Missing [project] section''], warnings)
       else
         exn_bind (py_getitem (Table config) ''project'') (\<lambda>project.
         exn_bind (append_if_missing project ''name''
                     ''Property "name" missing in [project]'' errors) (\<lambda>errors.
         exn_bind (append_if_missing project ''version''
                     ''Property "version" missing in [project]'' errors) (\<lambda>errors.
         exn_bind (append_if_missing project ''description''
                     ''Recommended property "description" missing in [project]'' warnings)
           (\<lambda>warnings.
         exn_bind (append_if_missing project ''license''
                     ''Recommended property "license" missing in [project]'' warnings)
           (\<lambda>warnings.
         exn_bind (append_if_missing project ''authors''
                     ''Recommended property "authors" missing in [project]'' warnings)
           (\<lambda>warnings.
         Inr (errors, warnings))))))))\<close>

text \<open>Lines 61 to 69: the \<^verbatim>\<open>[flower]\<close> and \<^verbatim>\<open>[flower.components]\<close> sections.\<close>

definition check_flower :: "dict \<Rightarrow> string list \<Rightarrow> exn + string list" where
  \<open>check_flower config errors =
     (if \<not> dict_has config ''flower''
      then Inr (errors @ [''Missing [flower] section''])
      else
        exn_bind (py_getitem (Table config) ''flower'') (\<lambda>flower.
        exn_bind (py_contains flower ''components'') (\<lambda>has_components.
        if \<not> has_components
        then Inr (errors @ [''Missing [flower.components] section''])
        else
          exn_bind (py_getitem flower ''components'') (\<lambda>components.
          exn_bind (append_if_missing components ''serverapp''
                      ''Property "serverapp" missing in [flower.components]'' errors)
            (\<lambda>errors.
          exn_bind (append_if_missing components ''clientapp''
                      ''Property "clientapp" missing in [flower.components]'' errors)
            (\<lambda>errors.
          Inr errors))))))\<close>

definition validate_flower_toml_fields ::
  "dict \<Rightarrow> exn + (bool \<times> string list \<times> string list)" where
  "validate_flower_toml_fields config =
     exn_bind (check_project config ([], [])) (\<lambda>(errors, warnings).
     exn_bind (check_flower config errors) (\<lambda>errors.
     Inr (length errors = 0, errors, warnings)))"

section \<open>\<^verbatim>\<open>validate_object_reference\<close>\<close>

text \<open>
  \<^verbatim>\<open>s.partition(sep)\<close> for a one-character separator: the text before the first
  occurrence, the separator, the text after it; the whole string and two empty
  strings when the separator does not occur.
\<close>

definition str_partition :: "string \<Rightarrow> char \<Rightarrow> string \<times> string \<times> string" where
  "str_partition s sep =
     (if sep \<in> set s
      then (takeWhile (\<lambda>c. c \<noteq> sep) s, [sep], tl (dropWhile (\<lambda>c. c \<noteq> sep) s))
      else (s, [], []))"

text \<open>\<^verbatim>\<open>s.split(sep)\<close> for a one-character separator: never an empty list.\<close>

fun str_split :: "string \<Rightarrow> char \<Rightarrow> string list" where
  "str_split [] sep = [[]]"
| "str_split (c # cs) sep =
     (if c = sep then [] # str_split cs sep
      else (case str_split cs sep of [] \<Rightarrow> [[c]] | w # ws \<Rightarrow> (c # w) # ws))"

text \<open>
  The host's module system is not part of the repository: \<^verbatim>\<open>importlib.import_module\<close>
  and \<^verbatim>\<open>getattr\<close> are parameters. Each returns an object of the host (type \<open>'o\<close>)
  or raises. Every call is an effect (an import runs the module's top-level code), so
  the validators thread the list of calls made so far.
\<close>

record 'o host =
  import_module :: "string \<Rightarrow> exn + 'o"
  getattr :: "'o \<Rightarrow> string \<Rightarrow> exn + 'o"

datatype event = Import string | GetAttr string

text \<open>Lines 104 and 105: the loop over the dotted attribute path.\<close>

fun load_attributes ::
  "'o host \<Rightarrow> 'o \<Rightarrow> string list \<Rightarrow> event list \<Rightarrow> (exn + 'o) \<times> event list" where
  "load_attributes h attribute [] log = (Inr attribute, log)"
| "load_attributes h attribute (attribute_str # rest) log =
     (case getattr h attribute attribute_str of
        Inl e \<Rightarrow> (Inl e, log @ [GetAttr attribute_str])
      | Inr a \<Rightarrow> load_attributes h a rest (log @ [GetAttr attribute_str]))"

text \<open>
  The argument is annotated \<^verbatim>\<open>str\<close>, but the caller passes whatever the table holds:
  \<^verbatim>\<open>ref.partition\<close> raises \<^verbatim>\<open>AttributeError\<close> on any value that is not a string.
  \<^verbatim>\<open>except ModuleNotFoundError\<close> and \<^verbatim>\<open>except AttributeError\<close> catch that class only;
  any other exception leaves the function.
\<close>

fun validate_object_reference ::
  "'o host \<Rightarrow> pyval \<Rightarrow> event list \<Rightarrow> (exn + (bool \<times> string option)) \<times> event list" where
  "validate_object_reference h (Str ref) log =
     (case str_partition ref CHR '':'' of (module_str, _, attributes_str) \<Rightarrow>
        if module_str = [] then (Inr (False, Some (''Missing module in '' @ ref)), log)
        else if attributes_str = []
        then (Inr (False, Some (''Missing attribute in '' @ ref)), log)
        else
          (case import_module h module_str of
             Inl e \<Rightarrow>
               (if e = ModuleNotFoundError
                then Inr (False, Some (''Unable to load module '' @ module_str))
                else Inl e,
                log @ [Import module_str])
           | Inr module_obj \<Rightarrow>
               (case load_attributes h module_obj (str_split attributes_str CHR ''.'')
                       (log @ [Import module_str]) of
                  (Inl e, log') \<Rightarrow>
                    (if e = AttributeError
                     then Inr (False, Some (''Unable to load attribute '' @ attributes_str
                                  @ '' from module '' @ module_str))
                     else Inl e,
                     log')
                | (Inr attribute, log') \<Rightarrow> (Inr (True, None), log'))))"
| "validate_object_reference h _ log = (Inl AttributeError, log)"

section \<open>\<^verbatim>\<open>validate_flower_toml\<close>\<close>

text \<open>\<^verbatim>\<open>config["flower"]["components"][name]\<close>, unguarded.\<close>

definition component :: "dict \<Rightarrow> string \<Rightarrow> exn + pyval" where
  "component config name =
     exn_bind (py_getitem (Table config) ''flower'') (\<lambda>flower.
     exn_bind (py_getitem flower ''components'') (\<lambda>components.
     py_getitem components name))"

text \<open>
  Lines 123 to 126 (and 130 to 134): validate one component's reference. The result is
  \<open>Some reason\<close> when \<^verbatim>\<open>not is_valid and isinstance(reason, str)\<close> holds, the branch
  that returns, and \<open>None\<close> when the function goes on.
\<close>

definition validate_component ::
  "'o host \<Rightarrow> dict \<Rightarrow> string \<Rightarrow> event list \<Rightarrow> (exn + string option) \<times> event list" where
  "validate_component h config name log =
     (case component config name of
        Inl e \<Rightarrow> (Inl e, log)
      | Inr ref \<Rightarrow>
          (case validate_object_reference h ref log of
             (Inl e, log') \<Rightarrow> (Inl e, log')
           | (Inr (is_valid, reason), log') \<Rightarrow>
               (Inr (if \<not> is_valid then reason else None), log')))"

definition validate_flower_toml ::
  "'o host \<Rightarrow> dict \<Rightarrow> event list
     \<Rightarrow> (exn + (bool \<times> string list \<times> string list)) \<times> event list" where
  "validate_flower_toml h config log =
     (case validate_flower_toml_fields config of
        Inl e \<Rightarrow> (Inl e, log)
      | Inr (is_valid, errors, warnings) \<Rightarrow>
          if \<not> is_valid then (Inr (False, errors, warnings), log)
          else
            (case validate_component h config ''serverapp'' log of
               (Inl e, log1) \<Rightarrow> (Inl e, log1)
             | (Inr (Some reason), log1) \<Rightarrow> (Inr (False, [reason], []), log1)
             | (Inr None, log1) \<Rightarrow>
                 (case validate_component h config ''clientapp'' log1 of
                    (Inl e, log2) \<Rightarrow> (Inl e, log2)
                  | (Inr (Some reason), log2) \<Rightarrow> (Inr (False, [reason], []), log2)
                  | (Inr None, log2) \<Rightarrow> (Inr (True, [], []), log2))))"

section \<open>\<^verbatim>\<open>apply_defaults\<close>\<close>

text \<open>
  The source builds no new table: it writes into the object \<^verbatim>\<open>config\<close> and returns
  it, and \<^verbatim>\<open>config[key] = defaults[key]\<close> stores a reference, so that a table taken
  from \<^verbatim>\<open>defaults\<close> is afterwards shared by both. What a run does therefore depends
  on which objects its arguments share, and the function is embedded on a store of
  \<^verbatim>\<open>dict\<close> objects.

  An object is the list of its entries, in insertion order. The value of an entry is
  a reference to an object, or a value that is not a \<^verbatim>\<open>dict\<close> and is never written to.
\<close>

type_synonym addr = nat

datatype hval = Ref addr | Leaf pyval

type_synonym store = "addr \<Rightarrow> (string \<times> hval) list"

text \<open>
  The loop of lines 145 to 150 over the keys still to visit. \<open>len\<close> is the size of
  \<^verbatim>\<open>defaults\<close> when the iteration began: a Python \<^verbatim>\<open>dict\<close> iterator raises
  \<^verbatim>\<open>RuntimeError\<close> when asked for the next key of a dictionary whose size has changed.
  \<open>fuel\<close> is the number of nested calls that the interpreter's recursion limit still
  allows; the call of line 148 raises \<^verbatim>\<open>RecursionError\<close> when none is left.
  The keys are those \<^verbatim>\<open>defaults\<close> had when the iteration began: the function only
  ever adds keys, so a dictionary of the same size has the same keys.
\<close>

function apply_defaults_loop ::
  "nat \<Rightarrow> store \<Rightarrow> addr \<Rightarrow> addr \<Rightarrow> nat \<Rightarrow> string list \<Rightarrow> exn + store" where
  "apply_defaults_loop fuel s c d len [] =
     (if length (s d) \<noteq> len then Inl RuntimeError else Inr s)"
| "apply_defaults_loop fuel s c d len (key # keys) =
     (if length (s d) \<noteq> len then Inl RuntimeError
      else
        (case map_of (s c) key of
           None \<Rightarrow>
             (case map_of (s d) key of
                None \<Rightarrow> Inl KeyError
              | Some dv \<Rightarrow> apply_defaults_loop fuel (s(c := s c @ [(key, dv)])) c d len keys)
         | Some (Leaf v) \<Rightarrow> apply_defaults_loop fuel s c d len keys
         | Some (Ref c') \<Rightarrow>
             (case map_of (s d) key of
                None \<Rightarrow> Inl KeyError
              | Some (Leaf v) \<Rightarrow> apply_defaults_loop fuel s c d len keys
              | Some (Ref d') \<Rightarrow>
                  (case fuel of
                     0 \<Rightarrow> Inl RecursionError
                   | Suc n \<Rightarrow>
                       (case apply_defaults_loop n s c' d' (length (s d')) (map fst (s d')) of
                          Inl e \<Rightarrow> Inl e
                        | Inr s' \<Rightarrow> apply_defaults_loop fuel s' c d len keys)))))"
  by pat_completeness auto
termination
  by (relation "measures [\<lambda>(fuel, s, c, d, len, keys). fuel,
                          \<lambda>(fuel, s, c, d, len, keys). length keys]") auto

text \<open>
  \<^verbatim>\<open>apply_defaults(config, defaults)\<close> for the objects at \<open>c\<close> and \<open>d\<close>; the object
  returned is \<open>c\<close> itself, so the result is the store.
\<close>

definition apply_defaults :: "nat \<Rightarrow> store \<Rightarrow> addr \<Rightarrow> addr \<Rightarrow> exn + store" where
  "apply_defaults fuel s c d =
     apply_defaults_loop fuel s c d (length (s d)) (map fst (s d))"

section \<open>The merge as a function on values\<close>

text \<open>
  The contract in words: for every key of \<^verbatim>\<open>defaults\<close>, a key that \<^verbatim>\<open>config\<close> lacks
  is copied in with its default value; a key bound to a table on both sides is merged
  by the same rule; any other key of \<^verbatim>\<open>config\<close> keeps its value.
  \<open>apply_defaults_spec\<close> is this rule on values, the tables read as association
  lists: the second argument is the part of \<^verbatim>\<open>defaults\<close> still to visit, in iteration
  order; a key that is absent is appended, as a Python \<^verbatim>\<open>dict\<close> does; a nested merge
  rebinds the key where it stands. It knows nothing of objects: \<open>apply_defaults_run\<close>
  below proves that a run of \<open>apply_defaults\<close> computes it when \<^verbatim>\<open>config\<close> shares no
  object, and the last section has runs on shared objects that do not compute it.
\<close>

function apply_defaults_spec :: "dict \<Rightarrow> dict \<Rightarrow> dict" where
  "apply_defaults_spec config [] = config"
| "apply_defaults_spec config ((key, dv) # rest) =
     apply_defaults_spec
       (case map_of config key of
          None \<Rightarrow> config @ [(key, dv)]
        | Some cv \<Rightarrow>
            (case cv of
               Table c \<Rightarrow>
                 (case dv of
                    Table d \<Rightarrow> AList.update key (Table (apply_defaults_spec c d)) config
                  | _ \<Rightarrow> config)
             | _ \<Rightarrow> config))
       rest"
  by pat_completeness auto
termination
  by (relation "measure (\<lambda>(config, defaults). size (Table defaults))") auto

text \<open>A Python \<^verbatim>\<open>dict\<close> binds each key once, at every depth.\<close>

fun wf_val :: "pyval \<Rightarrow> bool" where
  "wf_val (Table d) = (distinct (map fst d) \<and> list_all (\<lambda>kv. wf_val (snd kv)) d)"
| "wf_val (Array xs) = list_all wf_val xs"
| "wf_val v = True"

definition wf_dict :: "dict \<Rightarrow> bool" where
  "wf_dict d = wf_val (Table d)"

text \<open>
  The value a key holds after the loop has visited it, from the value \<open>cv\<close> it had in
  \<^verbatim>\<open>config\<close> and its default \<open>dv\<close>: lines 147 and 148.
\<close>

fun merged_value :: "pyval \<Rightarrow> pyval \<Rightarrow> pyval" where
  "merged_value (Table c) (Table d) = Table (apply_defaults_spec c d)"
| "merged_value cv dv = cv"

text \<open>
  The number of entries the merge adds, nested merges included. On a store each is
  one execution of line 150, \<^verbatim>\<open>config[key] = defaults[key]\<close>, the only statement of
  the function that writes to an object: where the number is 0 the run leaves the
  store as it was (\<open>loop_no_write\<close>).
\<close>

function assignments :: "dict \<Rightarrow> dict \<Rightarrow> nat" where
  "assignments config [] = 0"
| "assignments config ((key, dv) # rest) =
     (case map_of config key of
        None \<Rightarrow> Suc (assignments (config @ [(key, dv)]) rest)
      | Some cv \<Rightarrow>
          (case cv of
             Table c \<Rightarrow>
               (case dv of
                  Table d \<Rightarrow>
                    assignments c d
                    + assignments (AList.update key (Table (apply_defaults_spec c d)) config) rest
                | _ \<Rightarrow> assignments config rest)
           | _ \<Rightarrow> assignments config rest))"
  by pat_completeness auto
termination
  by (relation "measure (\<lambda>(config, defaults). size (Table defaults))") auto

fun nested_assignments :: "pyval \<Rightarrow> pyval \<Rightarrow> nat" where
  "nested_assignments (Table c) (Table d) = assignments c d"
| "nested_assignments cv dv = 0"

text \<open>
  \<^verbatim>\<open>d[k1][k2]...[kn]\<close> as far as the keys lead through nested tables: the value at the
  end of the path, if every key on the way is bound and all but the last to a table.
\<close>

fun lookup_path :: "dict \<Rightarrow> string list \<Rightarrow> pyval option" where
  "lookup_path d [] = Some (Table d)"
| "lookup_path d (key # path) =
     (case map_of d key of
        None \<Rightarrow> None
      | Some (Table d') \<Rightarrow> lookup_path d' path
      | Some v \<Rightarrow> if path = [] then Some v else None)"

section \<open>What a store holds\<close>

text \<open>
  A tree of tables in which every table remembers the address of its object, to say
  which value an address of the store stands for (\<open>erase\<close>), which addresses the
  value occupies (\<open>labels\<close>) and that the store agrees with it (\<open>holds\<close>).
\<close>

datatype ltree = LLeaf pyval | LNode addr "(string \<times> ltree) list"

fun href :: "ltree \<Rightarrow> hval" where
  "href (LLeaf v) = Leaf v"
| "href (LNode a es) = Ref a"

fun erase :: "ltree \<Rightarrow> pyval" where
  "erase (LLeaf v) = v"
| "erase (LNode a es) = Table (map (\<lambda>kt. (fst kt, erase (snd kt))) es)"

fun labels :: "ltree \<Rightarrow> addr set" where
  "labels (LLeaf v) = {}"
| "labels (LNode a es) = insert a (\<Union>kt \<in> set es. labels (snd kt))"

fun holds :: "store \<Rightarrow> ltree \<Rightarrow> bool" where
  "holds s (LLeaf v) = (\<not> is_table v)"
| "holds s (LNode a es) =
     (s a = map (\<lambda>kt. (fst kt, href (snd kt))) es \<and> (\<forall>kt \<in> set es. holds s (snd kt)))"

fun depth :: "ltree \<Rightarrow> nat" where
  "depth (LLeaf v) = 0"
| "depth (LNode a es) = Suc (fold max (map (\<lambda>kt. depth (snd kt)) es) 0)"

abbreviation entries_href :: "(string \<times> ltree) list \<Rightarrow> (string \<times> hval) list" where
  "entries_href es \<equiv> map (\<lambda>kt. (fst kt, href (snd kt))) es"

abbreviation entries_erase :: "(string \<times> ltree) list \<Rightarrow> dict" where
  "entries_erase es \<equiv> map (\<lambda>kt. (fst kt, erase (snd kt))) es"

fun leaves_ok :: "ltree \<Rightarrow> bool" where
  "leaves_ok (LLeaf v) = (\<not> is_table v)"
| "leaves_ok (LNode a es) = (\<forall>kt \<in> set es. leaves_ok (snd kt))"

text \<open>Every table binds each key once.\<close>

fun lwf :: "ltree \<Rightarrow> bool" where
  "lwf (LLeaf v) = wf_val v"
| "lwf (LNode a es) = (distinct (map fst es) \<and> (\<forall>kt \<in> set es. lwf (snd kt)))"

text \<open>
  No object is shared: no table lies below itself, and two entries of a table have
  no object in common. This is how \<^verbatim>\<open>tomli.loads\<close> and a \<^verbatim>\<open>dict\<close> literal build a
  configuration.
\<close>

fun tree_shaped :: "ltree \<Rightarrow> bool" where
  "tree_shaped (LLeaf v) = True"
| "tree_shaped (LNode a es) =
     (distinct (map fst es) \<and>
      (\<forall>kt \<in> set es. a \<notin> labels (snd kt) \<and> tree_shaped (snd kt)) \<and>
      (\<forall>kt \<in> set es. \<forall>kt' \<in> set es.
          fst kt \<noteq> fst kt' \<longrightarrow> labels (snd kt) \<inter> labels (snd kt') = {}))"

text \<open>
  The loop on such trees: the recursion of \<open>apply_defaults_spec\<close>, where a table that is
  merged keeps its address and a table that is copied keeps the address it has in
  \<^verbatim>\<open>defaults\<close>.
\<close>

function lmerge ::
  "(string \<times> ltree) list \<Rightarrow> (string \<times> ltree) list \<Rightarrow> (string \<times> ltree) list" where
  "lmerge ces [] = ces"
| "lmerge ces ((key, dt) # rest) =
     lmerge
       (case map_of ces key of
          None \<Rightarrow> ces @ [(key, dt)]
        | Some ct \<Rightarrow>
            (case ct of
               LNode a ces' \<Rightarrow>
                 (case dt of
                    LNode b des' \<Rightarrow> AList.update key (LNode a (lmerge ces' des')) ces
                  | _ \<Rightarrow> ces)
             | _ \<Rightarrow> ces))
       rest"
  by pat_completeness auto
termination
  by (relation "measure (\<lambda>(ces, des). size (LNode 0 des))") auto

fun lmerged :: "ltree \<Rightarrow> ltree \<Rightarrow> ltree" where
  "lmerged (LNode a ces') (LNode b des') = LNode a (lmerge ces' des')"
| "lmerged ct dt = ct"

section \<open>Well-typed manifests and example inputs\<close>

text \<open>
  The sections the validators open are tables wherever they are present, as the
  manifest's schema has them: \<^verbatim>\<open>[project]\<close>, \<^verbatim>\<open>[flower]\<close> and
  \<^verbatim>\<open>[flower.components]\<close>.
\<close>

definition sections_are_tables :: "dict \<Rightarrow> bool" where
  "sections_are_tables config =
     ((case map_of config ''project'' of None \<Rightarrow> True | Some p \<Rightarrow> is_table p) \<and>
      (case map_of config ''flower'' of
         None \<Rightarrow> True
       | Some (Table flower) \<Rightarrow>
           (case map_of flower ''components'' of None \<Rightarrow> True | Some c \<Rightarrow> is_table c)
       | Some _ \<Rightarrow> False))"

text \<open>
  A host in the manner of CPython, its objects named by their dotted path: the module
  \<^verbatim>\<open>os\<close> with \<^verbatim>\<open>getcwd\<close> and \<^verbatim>\<open>path.join\<close>; a module name that starts with a dot is
  a relative import, for which \<^verbatim>\<open>importlib.import_module\<close> called without a package
  raises \<^verbatim>\<open>TypeError\<close>; no other module is found.
\<close>

definition example_host :: "string host" where
  "example_host =
     \<lparr> import_module = (\<lambda>name.
          if name = ''os'' then Inr ''os''
          else if is_prefix ''.'' name then Inl TypeError
          else Inl ModuleNotFoundError),
       getattr = (\<lambda>obj name.
          if obj = ''os'' \<and> name = ''getcwd'' then Inr ''os.getcwd''
          else if obj = ''os'' \<and> name = ''path'' then Inr ''os.path''
          else if obj = ''os.path'' \<and> name = ''join'' then Inr ''os.path.join''
          else Inl AttributeError) \<rparr>"

text \<open>
  The manifest of the spec's examples: \<^verbatim>\<open>project = {name = "x", version = "1.0"}\<close> and
  a \<^verbatim>\<open>[flower.components]\<close> table with the two given values.
\<close>

definition manifest :: "pyval \<Rightarrow> pyval \<Rightarrow> dict" where
  "manifest serverapp clientapp =
     [(''project'', Table [(''name'', Str ''x''), (''version'', Str ''1.0'')]),
      (''flower'', Table [(''components'',
          Table [(''serverapp'', serverapp), (''clientapp'', clientapp)])])]"

text \<open>
  The same \<^verbatim>\<open>[project]\<close> table, with \<^verbatim>\<open>components = ["serverapp", "clientapp"]\<close>
  under \<^verbatim>\<open>[flower]\<close>: an array of the two names where the schema has a table.
\<close>

definition manifest_components_array :: dict where
  "manifest_components_array =
     [(''project'', Table [(''name'', Str ''x''), (''version'', Str ''1.0'')]),
      (''flower'', Table [(''components'', Array [Str ''serverapp'', Str ''clientapp''])])]"

text \<open>A manifest with no \<^verbatim>\<open>version\<close> and no \<^verbatim>\<open>[flower]\<close> section.\<close>

definition manifest_no_flower :: dict where
  "manifest_no_flower = [(''project'', Table [(''name'', Str ''x'')])]"

text \<open>
  A store with \<^verbatim>\<open>config = {a: {x: 1}}\<close> at address 0 and
  \<^verbatim>\<open>defaults = {a: {x: 2, y: 3}, b: {z: 0}}\<close> at address 2, and the two as trees.
\<close>

definition example_store :: store where
  "example_store =
     (\<lambda>a. []) (0 := [(''a'', Ref 1)],
              1 := [(''x'', Leaf (Integer 1))],
              2 := [(''a'', Ref 3), (''b'', Ref 4)],
              3 := [(''x'', Leaf (Integer 2)), (''y'', Leaf (Integer 3))],
              4 := [(''z'', Leaf (Integer 0))])"

definition example_config_entries :: "(string \<times> ltree) list" where
  "example_config_entries = [(''a'', LNode 1 [(''x'', LLeaf (Integer 1))])]"

definition example_defaults_entries :: "(string \<times> ltree) list" where
  "example_defaults_entries =
     [(''a'', LNode 3 [(''x'', LLeaf (Integer 2)), (''y'', LLeaf (Integer 3))]),
      (''b'', LNode 4 [(''z'', LLeaf (Integer 0))])]"

text \<open>
  \<^verbatim>\<open>config = {a: S, b: S}\<close> at address 0, the two keys bound to one empty table
  \<^verbatim>\<open>S\<close> at address 1, and \<^verbatim>\<open>defaults = {a: {x: 1}, b: {y: 2}}\<close> at address 2.
\<close>

definition shared_config_store :: store where
  "shared_config_store =
     (\<lambda>a. []) (0 := [(''a'', Ref 1), (''b'', Ref 1)],
              1 := [],
              2 := [(''a'', Ref 3), (''b'', Ref 4)],
              3 := [(''x'', Leaf (Integer 1))],
              4 := [(''y'', Leaf (Integer 2))])"

text \<open>
  \<^verbatim>\<open>config = {k: Q}\<close> at address 0, where \<^verbatim>\<open>Q = {k: {x: 1}}\<close> at address 1 is the
  object passed as \<^verbatim>\<open>defaults\<close>.
\<close>

definition config_holds_defaults_store :: store where
  "config_holds_defaults_store =
     (\<lambda>a. []) (0 := [(''k'', Ref 1)],
              1 := [(''k'', Ref 2)],
              2 := [(''x'', Leaf (Integer 1))])"

text \<open>
  \<^verbatim>\<open>config = {a: A, b: B}\<close> at address 0 and \<^verbatim>\<open>defaults = {a: B, b: {n: 1}}\<close> at
  address 3, with \<^verbatim>\<open>A\<close> and \<^verbatim>\<open>B\<close> two empty tables at addresses 1 and 2: \<^verbatim>\<open>B\<close>
  is a value of both.
\<close>

definition shared_defaults_store :: store where
  "shared_defaults_store =
     (\<lambda>a. []) (0 := [(''a'', Ref 1), (''b'', Ref 2)],
              1 := [],
              2 := [],
              3 := [(''a'', Ref 2), (''b'', Ref 4)],
              4 := [(''n'', Leaf (Integer 1))])"

text \<open>
  \<^verbatim>\<open>config = {k: config}\<close> at address 0 and \<^verbatim>\<open>defaults = {k: defaults}\<close> at
  address 1: each table lies below itself.
\<close>

definition cyclic_store :: store where
  "cyclic_store = (\<lambda>a. []) (0 := [(''k'', Ref 0)], 1 := [(''k'', Ref 1)])"

section \<open>Properties of the structural validator\<close>

lemma exn_bind_eq_Inr: "(exn_bind m f = Inr b) = (\<exists>a. m = Inr a \<and> f a = Inr b)"
  by (cases m) auto

lemma exn_bind_eq_Inl:
  "(exn_bind m f = Inl e) = (m = Inl e \<or> (\<exists>a. m = Inr a \<and> f a = Inl e))"
  by (cases m) auto

lemma append_if_missing_table:
  "append_if_missing (Table d) key msg msgs =
     Inr (if dict_has d key then msgs else msgs @ [msg])"
  by (simp add: append_if_missing_def)

lemma check_project_returns:
  assumes "case map_of config ''project'' of None \<Rightarrow> True | Some p \<Rightarrow> is_table p"
  shows "\<exists>r. check_project config acc = Inr r"
proof (cases "map_of config ''project''")
  case None
  then show ?thesis by (simp add: check_project_def dict_has_def split: prod.splits)
next
  case (Some p)
  with assms obtain d where "p = Table d" by (cases p) auto
  with Some show ?thesis
    by (simp add: check_project_def dict_has_def append_if_missing_table split: prod.splits)
qed

lemma check_flower_returns:
  assumes "case map_of config ''flower'' of
         None \<Rightarrow> True
       | Some (Table flower) \<Rightarrow>
           (case map_of flower ''components'' of None \<Rightarrow> True | Some c \<Rightarrow> is_table c)
       | Some _ \<Rightarrow> False"
  shows "\<exists>r. check_flower config errors = Inr r"
proof (cases "map_of config ''flower''")
  case None
  then show ?thesis by (simp add: check_flower_def dict_has_def)
next
  case outer: (Some f)
  with assms obtain flower where f: "f = Table flower" by (cases f) auto
  show ?thesis
  proof (cases "map_of flower ''components''")
    case None
    with outer f show ?thesis by (simp add: check_flower_def dict_has_def)
  next
    case (Some c)
    with assms f outer obtain d where "c = Table d" by (cases c) auto
    with Some f outer show ?thesis
      by (simp add: check_flower_def dict_has_def append_if_missing_table)
  qed
qed

lemma fields_returns:
  "sections_are_tables config \<Longrightarrow> \<exists>r. validate_flower_toml_fields config = Inr r"
  unfolding sections_are_tables_def validate_flower_toml_fields_def
  using check_project_returns[of config "([], [])"] check_flower_returns[of config]
  by (fastforce simp: exn_bind_eq_Inr)

lemma fields_flag:
  "validate_flower_toml_fields config = Inr (is_valid, errors, warnings)
     \<Longrightarrow> is_valid = (errors = [])"
  by (auto simp: validate_flower_toml_fields_def exn_bind_eq_Inr)

lemmas fields_eval =
  validate_flower_toml_fields_def check_project_def check_flower_def
  append_if_missing_def dict_has_def manifest_def manifest_no_flower_def
  manifest_components_array_def

lemma dict_has_keys: "dict_has d key = (key \<in> set (map fst d))"
  by (simp add: dict_has_def map_of_eq_None_iff)

lemma py_getitem_Inr: "(py_getitem v key = Inr x) = (\<exists>d. v = Table d \<and> map_of d key = Some x)"
  by (cases v) (auto split: option.splits)

lemma py_getitem_KeyError:
  "(py_getitem v key = Inl KeyError) = (\<exists>d. v = Table d \<and> map_of d key = None)"
  by (cases v) (auto split: option.splits)

lemma append_if_missing_Inr:
  "(append_if_missing c key msg msgs = Inr r) =
     (py_contains c key = Inr True \<and> r = msgs \<or> py_contains c key = Inr False \<and> r = msgs @ [msg])"
  by (auto simp: append_if_missing_def exn_bind_eq_Inr)

lemma check_flower_Nil:
  "check_flower config errors = Inr [] \<Longrightarrow>
     errors = [] \<and> (\<exists>flower comps. map_of config ''flower'' = Some (Table flower) \<and>
        map_of flower ''components'' = Some comps \<and>
        py_contains comps ''serverapp'' = Inr True \<and> py_contains comps ''clientapp'' = Inr True)"
  by (auto simp: check_flower_def exn_bind_eq_Inr py_getitem_Inr append_if_missing_Inr
        split: if_splits option.splits)

lemma fields_valid_structure:
  assumes "validate_flower_toml_fields config = Inr (True, errors, warnings)"
  shows "\<exists>flower comps. map_of config ''flower'' = Some (Table flower) \<and>
        map_of flower ''components'' = Some comps \<and>
        py_contains comps ''serverapp'' = Inr True \<and> py_contains comps ''clientapp'' = Inr True"
proof -
  from assms obtain e0 w0 where "check_flower config e0 = Inr errors" "errors = []"
    by (auto simp: validate_flower_toml_fields_def exn_bind_eq_Inr)
  then show ?thesis using check_flower_Nil[of config e0] by simp
qed

lemma check_project_table:
  \<open>map_of config ''project'' = Some (Table p) \<Longrightarrow>
   check_project config (errors, warnings) =
     Inr (errors
          @ (if dict_has p ''name'' then [] else [''Property "name" missing in [project]''])
          @ (if dict_has p ''version'' then []
             else [''Property "version" missing in [project]'']),
          warnings
          @ (if dict_has p ''description'' then []
             else [''Recommended property "description" missing in [project]''])
          @ (if dict_has p ''license'' then []
             else [''Recommended property "license" missing in [project]''])
          @ (if dict_has p ''authors'' then []
             else [''Recommended property "authors" missing in [project]'']))\<close>
  by (simp add: check_project_def append_if_missing_table dict_has_def)

lemma check_flower_tables:
  "map_of config ''flower'' = Some (Table flower) \<Longrightarrow>
   map_of flower ''components'' = Some (Table comps) \<Longrightarrow>
   dict_has comps ''serverapp'' \<Longrightarrow> dict_has comps ''clientapp'' \<Longrightarrow>
   check_flower config errors = Inr errors"
  by (simp add: check_flower_def append_if_missing_table) (simp add: dict_has_def)

text \<open>
  C4. Whenever the structural validator returns, its flag is true exactly when the
  error list it returns is empty. The flag is thereby a function of the error list
  alone: two runs that return the same errors return the same flag, whatever their
  warnings. The validator does return on every manifest whose sections are tables.
\<close>

theorem fields_success_iff_no_errors:
  "(validate_flower_toml_fields config = Inr (is_valid, errors, warnings)
      \<longrightarrow> is_valid = (errors = [])) \<and>
   (validate_flower_toml_fields config = Inr (is_valid, errors, warnings) \<and>
    validate_flower_toml_fields config' = Inr (is_valid', errors, warnings')
      \<longrightarrow> is_valid' = is_valid) \<and>
   (sections_are_tables config \<longrightarrow> (\<exists>r. validate_flower_toml_fields config = Inr r))"
  using fields_flag[of config is_valid errors warnings]
    fields_flag[of config' is_valid' errors warnings'] fields_returns[of config]
  by blast

theorem fields_success_iff_no_errors_witness:
  \<open>validate_flower_toml_fields (manifest (Str ''os:getcwd'') (Str ''os:getcwd'')) =
     Inr (True, [],
       [''Recommended property "description" missing in [project]'',
        ''Recommended property "license" missing in [project]'',
        ''Recommended property "authors" missing in [project]'']) \<and>
   validate_flower_toml_fields
     [(''project'', Table [(''name'', Str ''x''), (''version'', Str ''1.0''),
        (''description'', Str ''d''), (''license'', Str ''l''), (''authors'', Array [])]),
      (''flower'', Table [(''components'',
        Table [(''serverapp'', Str ''a:b''), (''clientapp'', Str ''c:d'')])])] =
     Inr (True, [], []) \<and>
   sections_are_tables (manifest (Str ''os:getcwd'') (Str ''os:getcwd'')) \<and>
   validate_flower_toml_fields manifest_no_flower =
     Inr (False,
       [''Property "version" missing in [project]'', ''Missing [flower] section''],
       [''Recommended property "description" missing in [project]'',
        ''Recommended property "license" missing in [project]'',
        ''Recommended property "authors" missing in [project]''])\<close>
  using fields_success_iff_no_errors[of "manifest (Str ''os:getcwd'') (Str ''os:getcwd'')"]
  by (simp add: fields_eval sections_are_tables_def)

text \<open>
  C5, with the count the code gives. With a \<^verbatim>\<open>[project]\<close> table whose keys are
  exactly \<^verbatim>\<open>name\<close> and \<^verbatim>\<open>version\<close> and a \<^verbatim>\<open>[flower.components]\<close> table holding
  \<^verbatim>\<open>serverapp\<close> and \<^verbatim>\<open>clientapp\<close>, the structural validator returns valid, no
  error and exactly three warnings: description, license, authors, in this order.
  The three checks are independent: on any manifest with a \<^verbatim>\<open>[project]\<close> table on
  which the validator returns, each warning is present exactly when its key is
  absent, whatever the \<^verbatim>\<open>name\<close> and \<^verbatim>\<open>version\<close> checks and the other two found.
\<close>

theorem fields_three_warnings:
  \<open>(map_of config ''project'' = Some (Table p) \<and>
    set (map fst p) = {''name'', ''version''} \<and>
    map_of config ''flower'' = Some (Table flower) \<and>
    map_of flower ''components'' = Some (Table comps) \<and>
    dict_has comps ''serverapp'' \<and> dict_has comps ''clientapp''
    \<longrightarrow> validate_flower_toml_fields config =
          Inr (True, [],
            [''Recommended property "description" missing in [project]'',
             ''Recommended property "license" missing in [project]'',
             ''Recommended property "authors" missing in [project]''])) \<and>
   (map_of config ''project'' = Some (Table p) \<and>
    validate_flower_toml_fields config = Inr (is_valid, errors, warnings)
    \<longrightarrow> warnings =
          (if dict_has p ''description'' then []
           else [''Recommended property "description" missing in [project]''])
          @ (if dict_has p ''license'' then []
             else [''Recommended property "license" missing in [project]''])
          @ (if dict_has p ''authors'' then []
             else [''Recommended property "authors" missing in [project]'']))\<close>
proof (intro conjI impI)
  assume a: \<open>map_of config ''project'' = Some (Table p) \<and>
    set (map fst p) = {''name'', ''version''} \<and>
    map_of config ''flower'' = Some (Table flower) \<and>
    map_of flower ''components'' = Some (Table comps) \<and>
    dict_has comps ''serverapp'' \<and> dict_has comps ''clientapp''\<close>
  then have keys: "dict_has p ''name''" "dict_has p ''version''"
    "\<not> dict_has p ''description''" "\<not> dict_has p ''license''" "\<not> dict_has p ''authors''"
    by (simp_all add: dict_has_keys)
  from a keys show \<open>validate_flower_toml_fields config =
          Inr (True, [],
            [''Recommended property "description" missing in [project]'',
             ''Recommended property "license" missing in [project]'',
             ''Recommended property "authors" missing in [project]''])\<close>
    by (simp add: validate_flower_toml_fields_def check_project_table check_flower_tables)
next
  assume \<open>map_of config ''project'' = Some (Table p) \<and>
    validate_flower_toml_fields config = Inr (is_valid, errors, warnings)\<close>
  then show \<open>warnings =
          (if dict_has p ''description'' then []
           else [''Recommended property "description" missing in [project]''])
          @ (if dict_has p ''license'' then []
             else [''Recommended property "license" missing in [project]''])
          @ (if dict_has p ''authors'' then []
             else [''Recommended property "authors" missing in [project]''])\<close>
    by (auto simp: validate_flower_toml_fields_def check_project_table exn_bind_eq_Inr)
qed

theorem fields_three_warnings_witness:
  \<open>validate_flower_toml_fields (manifest (Str ''os:getcwd'') (Str ''os:getcwd'')) =
     Inr (True, [],
       [''Recommended property "description" missing in [project]'',
        ''Recommended property "license" missing in [project]'',
        ''Recommended property "authors" missing in [project]'']) \<and>
   validate_flower_toml_fields [(''project'', Table [(''license'', Str ''MIT'')])] =
     Inr (False,
       [''Property "name" missing in [project]'',
        ''Property "version" missing in [project]'',
        ''Missing [flower] section''],
       [''Recommended property "description" missing in [project]'',
        ''Recommended property "authors" missing in [project]''])\<close>
proof -
  have h: \<open>map_of (manifest (Str ''os:getcwd'') (Str ''os:getcwd'')) ''project'' =
       Some (Table [(''name'', Str ''x''), (''version'', Str ''1.0'')]) \<and>
    set (map fst [(''name'', Str ''x''), (''version'', Str ''1.0'')]) = {''name'', ''version''} \<and>
    map_of (manifest (Str ''os:getcwd'') (Str ''os:getcwd'')) ''flower'' =
       Some (Table [(''components'',
          Table [(''serverapp'', Str ''os:getcwd''), (''clientapp'', Str ''os:getcwd'')])]) \<and>
    map_of [(''components'',
          Table [(''serverapp'', Str ''os:getcwd''), (''clientapp'', Str ''os:getcwd'')])]
       ''components'' =
       Some (Table [(''serverapp'', Str ''os:getcwd''), (''clientapp'', Str ''os:getcwd'')]) \<and>
    dict_has [(''serverapp'', Str ''os:getcwd''), (''clientapp'', Str ''os:getcwd'')]
       ''serverapp'' \<and>
    dict_has [(''serverapp'', Str ''os:getcwd''), (''clientapp'', Str ''os:getcwd'')]
       ''clientapp''\<close>
    by (simp add: manifest_def dict_has_def)
  have 1: \<open>validate_flower_toml_fields (manifest (Str ''os:getcwd'') (Str ''os:getcwd'')) =
     Inr (True, [],
       [''Recommended property "description" missing in [project]'',
        ''Recommended property "license" missing in [project]'',
        ''Recommended property "authors" missing in [project]''])\<close>
    using fields_three_warnings[THEN conjunct1, rule_format, OF h] .
  have 2: \<open>validate_flower_toml_fields [(''project'', Table [(''license'', Str ''MIT'')])] =
     Inr (False,
       [''Property "name" missing in [project]'',
        ''Property "version" missing in [project]'',
        ''Missing [flower] section''],
       [''Recommended property "description" missing in [project]'',
        ''Recommended property "authors" missing in [project]''])\<close>
    by (simp add: fields_eval)
  from 1 2 show ?thesis by simp
qed

text \<open>
  On the spec's example manifest the validator returns the three warnings: it does not
  return a list of two.
\<close>

theorem fields_two_warnings_counterexample:
  "\<not> (\<exists>warnings.
        validate_flower_toml_fields (manifest (Str ''os:getcwd'') (Str ''os:getcwd'')) =
          Inr (True, [], warnings) \<and> length warnings = 2)"
  by (simp add: fields_eval)

section \<open>Properties of the reference validator\<close>

lemma str_partition_found:
  assumes "sep \<in> set s"
  shows "str_partition s sep =
           (takeWhile (\<lambda>c. c \<noteq> sep) s, [sep], tl (dropWhile (\<lambda>c. c \<noteq> sep) s))"
    and "s = takeWhile (\<lambda>c. c \<noteq> sep) s @ sep # tl (dropWhile (\<lambda>c. c \<noteq> sep) s)"
proof -
  show "str_partition s sep =
           (takeWhile (\<lambda>c. c \<noteq> sep) s, [sep], tl (dropWhile (\<lambda>c. c \<noteq> sep) s))"
    using assms by (simp add: str_partition_def)
  from assms have ne: "dropWhile (\<lambda>c. c \<noteq> sep) s \<noteq> []"
    by (auto simp: dropWhile_eq_Nil_conv)
  then have "hd (dropWhile (\<lambda>c. c \<noteq> sep) s) = sep"
    using hd_dropWhile[of "\<lambda>c. c \<noteq> sep" s] by simp
  with ne have "dropWhile (\<lambda>c. c \<noteq> sep) s = sep # tl (dropWhile (\<lambda>c. c \<noteq> sep) s)"
    by (cases "dropWhile (\<lambda>c. c \<noteq> sep) s") auto
  then show "s = takeWhile (\<lambda>c. c \<noteq> sep) s @ sep # tl (dropWhile (\<lambda>c. c \<noteq> sep) s)"
    using takeWhile_dropWhile_id[of "\<lambda>c. c \<noteq> sep" s] by simp
qed

lemma str_partition_first:
  assumes "str_partition s sep = (before, found, after)"
  shows "sep \<notin> set before"
    and "sep \<in> set s \<Longrightarrow> found = [sep] \<and> s = before @ sep # after"
    and "sep \<notin> set s \<Longrightarrow> before = s \<and> found = [] \<and> after = []"
proof -
  show "sep \<notin> set before"
    using assms by (auto simp: str_partition_def split: if_splits dest: set_takeWhileD)
  show "sep \<in> set s \<Longrightarrow> found = [sep] \<and> s = before @ sep # after"
    using assms str_partition_found[of sep s] by auto
  show "sep \<notin> set s \<Longrightarrow> before = s \<and> found = [] \<and> after = []"
    using assms by (simp add: str_partition_def)
qed

lemma validate_object_reference_shape:
  "validate_object_reference h ref log = (Inr (is_valid, reason), log') \<Longrightarrow>
     is_valid = (reason = None)"
  by (cases ref) (auto split: prod.splits if_splits sum.splits)

text \<open>
  C6. The reference is split at its first colon: the module part holds no colon, and
  when the reference has a colon it is the module part, the colon and the attribute
  part. An empty module part gives \<open>(False, Missing module in ref)\<close>, whatever the
  attribute part; a module part that is not empty with an empty attribute part gives
  \<open>(False, Missing attribute in ref)\<close>. Neither touches the host.
\<close>

theorem reference_missing_part:
  assumes "str_partition ref CHR '':'' = (module_str, sep, attributes_str)"
  shows
    "CHR '':'' \<notin> set module_str \<and>
     (CHR '':'' \<in> set ref \<longrightarrow> ref = module_str @ CHR '':'' # attributes_str) \<and>
     (CHR '':'' \<notin> set ref \<longrightarrow> module_str = ref \<and> attributes_str = []) \<and>
     (module_str = [] \<longrightarrow>
        validate_object_reference h (Str ref) log =
          (Inr (False, Some (''Missing module in '' @ ref)), log)) \<and>
     (module_str \<noteq> [] \<and> attributes_str = [] \<longrightarrow>
        validate_object_reference h (Str ref) log =
          (Inr (False, Some (''Missing attribute in '' @ ref)), log))"
  using str_partition_first[OF assms] assms by simp

theorem reference_missing_part_witness:
  "validate_object_reference example_host (Str '':'') [] =
     (Inr (False, Some ''Missing module in :''), []) \<and>
   validate_object_reference example_host (Str '':getcwd'') [] =
     (Inr (False, Some ''Missing module in :getcwd''), []) \<and>
   validate_object_reference example_host (Str ''os:'') [] =
     (Inr (False, Some ''Missing attribute in os:''), [])"
proof -
  have p: "str_partition '':'' CHR '':'' = ([], '':'', [])"
    "str_partition '':getcwd'' CHR '':'' = ([], '':'', ''getcwd'')"
    "str_partition ''os:'' CHR '':'' = (''os'', '':'', [])"
    by (simp_all add: str_partition_def)
  from reference_missing_part[OF p(1), of example_host "[]"]
    reference_missing_part[OF p(2), of example_host "[]"]
    reference_missing_part[OF p(3), of example_host "[]"]
  show ?thesis by simp
qed

text \<open>
  C10. A reference that is not empty and holds no colon is a module part with an empty
  attribute part: the result is \<open>(False, Missing attribute in ref)\<close>, and the host is
  not touched.
\<close>

theorem reference_without_colon:
  "ref \<noteq> [] \<Longrightarrow> CHR '':'' \<notin> set ref \<Longrightarrow>
     validate_object_reference h (Str ref) log =
       (Inr (False, Some (''Missing attribute in '' @ ref)), log)"
  by (simp add: str_partition_def)

theorem reference_without_colon_witness:
  "validate_object_reference example_host (Str ''os.getcwd'') [] =
     (Inr (False, Some ''Missing attribute in os.getcwd''), [])"
  using reference_without_colon[of "''os.getcwd''" example_host "[]"] by simp

text \<open>
  C2, for the two exceptions the handlers name. For a reference whose module part
  and attribute part are not empty: a \<^verbatim>\<open>ModuleNotFoundError\<close> of the import becomes
  the result \<open>(False, Unable to load module m)\<close>; an \<^verbatim>\<open>AttributeError\<close> of a lookup
  along the dotted path becomes \<open>(False, Unable to load attribute a from module m)\<close>;
  when every lookup succeeds the result is \<open>(True, None)\<close>. The function raises
  exactly when the import raises another exception or a lookup raises another
  exception, and then it raises that exception.
\<close>

theorem reference_load_failures:
  assumes "str_partition ref CHR '':'' = (m, sep, a)" and "m \<noteq> []" and "a \<noteq> []"
  shows
    "(import_module h m = Inl ModuleNotFoundError \<longrightarrow>
        validate_object_reference h (Str ref) log =
          (Inr (False, Some (''Unable to load module '' @ m)), log @ [Import m])) \<and>
     (\<forall>obj log'. import_module h m = Inr obj \<and>
        load_attributes h obj (str_split a CHR ''.'') (log @ [Import m]) =
          (Inl AttributeError, log')
        \<longrightarrow> validate_object_reference h (Str ref) log =
          (Inr (False, Some (''Unable to load attribute '' @ a @ '' from module '' @ m)),
           log')) \<and>
     (\<forall>obj x log'. import_module h m = Inr obj \<and>
        load_attributes h obj (str_split a CHR ''.'') (log @ [Import m]) = (Inr x, log')
        \<longrightarrow> validate_object_reference h (Str ref) log = (Inr (True, None), log')) \<and>
     (\<forall>e. (fst (validate_object_reference h (Str ref) log) = Inl e) =
        (e \<noteq> ModuleNotFoundError \<and> import_module h m = Inl e \<or>
         e \<noteq> AttributeError \<and> (\<exists>obj. import_module h m = Inr obj \<and>
           fst (load_attributes h obj (str_split a CHR ''.'') (log @ [Import m])) = Inl e)))"
  using assms by (auto split: sum.splits prod.splits)

theorem reference_load_failures_witness:
  "validate_object_reference example_host (Str ''badmodule:fn'') [] =
     (Inr (False, Some ''Unable to load module badmodule''), [Import ''badmodule'']) \<and>
   validate_object_reference example_host (Str ''os:nonexistent_attr_xyz'') [] =
     (Inr (False, Some ''Unable to load attribute nonexistent_attr_xyz from module os''),
      [Import ''os'', GetAttr ''nonexistent_attr_xyz'']) \<and>
   validate_object_reference example_host (Str ''os:path.join'') [] =
     (Inr (True, None), [Import ''os'', GetAttr ''path'', GetAttr ''join'']) \<and>
   fst (validate_object_reference example_host (Str ''.os:getcwd'') []) = Inl TypeError"
proof -
  have p: "str_partition ''badmodule:fn'' CHR '':'' = (''badmodule'', '':'', ''fn'')"
    "str_partition ''os:nonexistent_attr_xyz'' CHR '':'' =
       (''os'', '':'', ''nonexistent_attr_xyz'')"
    "str_partition ''os:path.join'' CHR '':'' = (''os'', '':'', ''path.join'')"
    "str_partition ''.os:getcwd'' CHR '':'' = (''.os'', '':'', ''getcwd'')"
    by (simp_all add: str_partition_def)
  have i: "import_module example_host ''badmodule'' = Inl ModuleNotFoundError"
    "import_module example_host ''os'' = Inr ''os''"
    "import_module example_host ''.os'' = Inl TypeError"
    by (simp_all add: example_host_def)
  have l: "load_attributes example_host ''os'' (str_split ''nonexistent_attr_xyz'' CHR ''.'')
        ([] @ [Import ''os'']) =
      (Inl AttributeError, [Import ''os'', GetAttr ''nonexistent_attr_xyz''])"
    "load_attributes example_host ''os'' (str_split ''path.join'' CHR ''.'')
        ([] @ [Import ''os'']) =
      (Inr ''os.path.join'', [Import ''os'', GetAttr ''path'', GetAttr ''join''])"
    by (simp_all add: example_host_def)
  from reference_load_failures[OF p(1), of example_host "[]"] i(1)
  have 1: "validate_object_reference example_host (Str ''badmodule:fn'') [] =
     (Inr (False, Some ''Unable to load module badmodule''), [Import ''badmodule''])"
    by simp
  from reference_load_failures[OF p(2), of example_host "[]"] i(2) l(1)
  have 2: "validate_object_reference example_host (Str ''os:nonexistent_attr_xyz'') [] =
     (Inr (False, Some ''Unable to load attribute nonexistent_attr_xyz from module os''),
      [Import ''os'', GetAttr ''nonexistent_attr_xyz''])"
    by simp
  from reference_load_failures[OF p(3), of example_host "[]"] i(2) l(2)
  have 3: "validate_object_reference example_host (Str ''os:path.join'') [] =
     (Inr (True, None), [Import ''os'', GetAttr ''path'', GetAttr ''join''])"
    by simp
  from reference_load_failures[OF p(4), of example_host "[]"] i(3)
  have 4: "fst (validate_object_reference example_host (Str ''.os:getcwd'') []) =
      Inl TypeError"
    by simp
  from 1 2 3 4 show ?thesis by simp
qed

text \<open>
  A reference with a relative module name, \<^verbatim>\<open>.x:y\<close>: both parts are not empty, the
  import raises \<^verbatim>\<open>TypeError\<close>, and no handler catches it.
\<close>

theorem reference_never_raises_counterexample:
  "str_partition ''.x:y'' CHR '':'' = (''.x'', '':'', ''y'') \<and>
   validate_object_reference example_host (Str ''.x:y'') [] =
     (Inl TypeError, [Import ''.x''])"
  by (simp add: str_partition_def example_host_def)

section \<open>Properties of the orchestrator\<close>

lemma orchestrator_warnings_empty:
  assumes "validate_flower_toml_fields config = Inr (True, errors, warnings)"
  shows "validate_flower_toml h config log = (Inr (b, es, ws), log') \<Longrightarrow>
           ws = [] \<and> (if b then es = [] else \<exists>r. es = [r])"
  using assms
  by (auto simp: validate_flower_toml_def split: prod.splits sum.splits option.splits)

lemma component_Inr:
  "(component config name = Inr v) =
     (\<exists>flower comps. map_of config ''flower'' = Some (Table flower) \<and>
        map_of flower ''components'' = Some (Table comps) \<and> map_of comps name = Some v)"
  by (auto simp: component_def exn_bind_eq_Inr py_getitem_Inr split: option.splits)

lemma component_KeyError:
  "(component config name = Inl KeyError) =
     (map_of config ''flower'' = None \<or>
      (\<exists>flower. map_of config ''flower'' = Some (Table flower) \<and>
         (map_of flower ''components'' = None \<or>
          (\<exists>comps. map_of flower ''components'' = Some (Table comps) \<and>
             map_of comps name = None))))"
  by (auto simp: component_def exn_bind_eq_Inl py_getitem_Inr py_getitem_KeyError
        split: option.splits)

text \<open>
  C3. When the structural validator reports invalid, the orchestrator returns that
  very triple, and the list of host calls is the one it was given: no module is
  imported and no attribute is looked up, whatever the host.
\<close>

theorem orchestrator_returns_structural_failure:
  "validate_flower_toml_fields config = Inr (False, errors, warnings) \<Longrightarrow>
     validate_flower_toml h config log = (Inr (False, errors, warnings), log)"
  by (simp add: validate_flower_toml_def)

theorem orchestrator_returns_structural_failure_witness:
  \<open>validate_flower_toml_fields manifest_no_flower =
     Inr (False,
       [''Property "version" missing in [project]'', ''Missing [flower] section''],
       [''Recommended property "description" missing in [project]'',
        ''Recommended property "license" missing in [project]'',
        ''Recommended property "authors" missing in [project]'']) \<and>
   validate_flower_toml example_host manifest_no_flower [] =
     (Inr (False,
       [''Property "version" missing in [project]'', ''Missing [flower] section''],
       [''Recommended property "description" missing in [project]'',
        ''Recommended property "license" missing in [project]'',
        ''Recommended property "authors" missing in [project]'']), [])\<close>
proof -
  have f: \<open>validate_flower_toml_fields manifest_no_flower =
     Inr (False,
       [''Property "version" missing in [project]'', ''Missing [flower] section''],
       [''Recommended property "description" missing in [project]'',
        ''Recommended property "license" missing in [project]'',
        ''Recommended property "authors" missing in [project]''])\<close>
    by (simp add: fields_eval)
  from orchestrator_returns_structural_failure[OF f, of example_host "[]"] f
  show ?thesis by simp
qed

text \<open>
  C1. On a manifest that the structural validator reports valid, every triple the
  orchestrator returns has an empty warning list, and its error list is empty when
  the flag is true and one reason when it is false. If the \<^verbatim>\<open>serverapp\<close> reference
  is reported invalid with a reason, the result is \<open>(False, [reason], [])\<close> and the host
  calls are those of that one validation: \<^verbatim>\<open>clientapp\<close> is neither read nor checked.
  If \<^verbatim>\<open>serverapp\<close> passes and \<^verbatim>\<open>clientapp\<close> is reported invalid, the result is
  \<open>(False, [reason], [])\<close>; if both pass, it is \<open>(True, [], [])\<close>. (The reference
  validator returns \<open>(True, None)\<close> or \<open>(False, Some reason)\<close> whenever it returns:
  \<open>validate_object_reference_shape\<close>.)
\<close>

theorem orchestrator_discards_warnings:
  assumes "validate_flower_toml_fields config = Inr (True, errors, warnings)"
  shows
    "(\<forall>s r log1. component config ''serverapp'' = Inr s \<and>
        validate_object_reference h s log = (Inr (False, Some r), log1)
        \<longrightarrow> validate_flower_toml h config log = (Inr (False, [r], []), log1)) \<and>
     (\<forall>s c r log1 log2. component config ''serverapp'' = Inr s \<and>
        validate_object_reference h s log = (Inr (True, None), log1) \<and>
        component config ''clientapp'' = Inr c \<and>
        validate_object_reference h c log1 = (Inr (False, Some r), log2)
        \<longrightarrow> validate_flower_toml h config log = (Inr (False, [r], []), log2)) \<and>
     (\<forall>s c log1 log2. component config ''serverapp'' = Inr s \<and>
        validate_object_reference h s log = (Inr (True, None), log1) \<and>
        component config ''clientapp'' = Inr c \<and>
        validate_object_reference h c log1 = (Inr (True, None), log2)
        \<longrightarrow> validate_flower_toml h config log = (Inr (True, [], []), log2)) \<and>
     (\<forall>b es ws log'. validate_flower_toml h config log = (Inr (b, es, ws), log')
        \<longrightarrow> ws = [] \<and> (if b then es = [] else \<exists>r. es = [r]))"
proof -
  have "validate_flower_toml h config log = (Inr (False, [r], []), log1)"
    if "component config ''serverapp'' = Inr s \<and>
        validate_object_reference h s log = (Inr (False, Some r), log1)" for s r log1
    using that assms by (simp add: validate_flower_toml_def validate_component_def)
  moreover have "validate_flower_toml h config log = (Inr (False, [r], []), log2)"
    if "component config ''serverapp'' = Inr s \<and>
        validate_object_reference h s log = (Inr (True, None), log1) \<and>
        component config ''clientapp'' = Inr c \<and>
        validate_object_reference h c log1 = (Inr (False, Some r), log2)" for s c r log1 log2
    using that assms by (simp add: validate_flower_toml_def validate_component_def)
  moreover have "validate_flower_toml h config log = (Inr (True, [], []), log2)"
    if "component config ''serverapp'' = Inr s \<and>
        validate_object_reference h s log = (Inr (True, None), log1) \<and>
        component config ''clientapp'' = Inr c \<and>
        validate_object_reference h c log1 = (Inr (True, None), log2)" for s c log1 log2
    using that assms by (simp add: validate_flower_toml_def validate_component_def)
  moreover have "ws = [] \<and> (if b then es = [] else \<exists>r. es = [r])"
    if "validate_flower_toml h config log = (Inr (b, es, ws), log')" for b es ws log'
    using that by (rule orchestrator_warnings_empty[OF assms])
  ultimately show ?thesis by blast
qed

theorem orchestrator_discards_warnings_witness:
  \<open>validate_flower_toml_fields (manifest (Str ''badmodule:fn'') (Integer 3)) =
     Inr (True, [],
       [''Recommended property "description" missing in [project]'',
        ''Recommended property "license" missing in [project]'',
        ''Recommended property "authors" missing in [project]'']) \<and>
   validate_flower_toml example_host (manifest (Str ''badmodule:fn'') (Integer 3)) [] =
     (Inr (False, [''Unable to load module badmodule''], []), [Import ''badmodule'']) \<and>
   validate_flower_toml example_host
       (manifest (Str ''os:getcwd'') (Str ''os:nonexistent_attr_xyz'')) [] =
     (Inr (False, [''Unable to load attribute nonexistent_attr_xyz from module os''], []),
      [Import ''os'', GetAttr ''getcwd'', Import ''os'', GetAttr ''nonexistent_attr_xyz'']) \<and>
   validate_flower_toml example_host
       (manifest (Str ''os:getcwd'') (Str ''os:path.join'')) [] =
     (Inr (True, [], []),
      [Import ''os'', GetAttr ''getcwd'', Import ''os'', GetAttr ''path'', GetAttr ''join''])\<close>
proof -
  have f: \<open>validate_flower_toml_fields (manifest s c) =
     Inr (True, [],
       [''Recommended property "description" missing in [project]'',
        ''Recommended property "license" missing in [project]'',
        ''Recommended property "authors" missing in [project]''])\<close> for s c
    by (simp add: fields_eval)
  have c: "component (manifest s c) ''serverapp'' = Inr s"
    "component (manifest s c) ''clientapp'' = Inr c" for s c
    by (simp_all add: component_def manifest_def)
  have v1: "validate_object_reference example_host (Str ''badmodule:fn'') [] =
      (Inr (False, Some ''Unable to load module badmodule''), [Import ''badmodule''])"
    by (simp add: str_partition_def example_host_def)
  have v2: "validate_object_reference example_host (Str ''os:getcwd'') [] =
      (Inr (True, None), [Import ''os'', GetAttr ''getcwd''])"
    by (simp add: str_partition_def example_host_def)
  have v3: "validate_object_reference example_host (Str ''os:nonexistent_attr_xyz'')
        [Import ''os'', GetAttr ''getcwd''] =
      (Inr (False, Some ''Unable to load attribute nonexistent_attr_xyz from module os''),
       [Import ''os'', GetAttr ''getcwd'', Import ''os'', GetAttr ''nonexistent_attr_xyz''])"
    by (simp add: str_partition_def example_host_def)
  have v4: "validate_object_reference example_host (Str ''os:path.join'')
        [Import ''os'', GetAttr ''getcwd''] =
      (Inr (True, None),
       [Import ''os'', GetAttr ''getcwd'', Import ''os'', GetAttr ''path'', GetAttr ''join''])"
    by (simp add: str_partition_def example_host_def)
  note t = orchestrator_discards_warnings[OF f, of _ _ example_host "[]"]
  from t[of "Str ''badmodule:fn''" "Integer 3"] c v1
  have r1: "validate_flower_toml example_host (manifest (Str ''badmodule:fn'') (Integer 3)) [] =
     (Inr (False, [''Unable to load module badmodule''], []), [Import ''badmodule''])"
    by blast
  from t[of "Str ''os:getcwd''" "Str ''os:nonexistent_attr_xyz''"] c v2 v3
  have r2: "validate_flower_toml example_host
       (manifest (Str ''os:getcwd'') (Str ''os:nonexistent_attr_xyz'')) [] =
     (Inr (False, [''Unable to load attribute nonexistent_attr_xyz from module os''], []),
      [Import ''os'', GetAttr ''getcwd'', Import ''os'', GetAttr ''nonexistent_attr_xyz''])"
    by blast
  from t[of "Str ''os:getcwd''" "Str ''os:path.join''"] c v2 v4
  have r3: "validate_flower_toml example_host
       (manifest (Str ''os:getcwd'') (Str ''os:path.join'')) [] =
     (Inr (True, [], []),
      [Import ''os'', GetAttr ''getcwd'', Import ''os'', GetAttr ''path'', GetAttr ''join''])"
    by blast
  from f r1 r2 r3 show ?thesis by simp
qed

text \<open>
  C9, for a \<^verbatim>\<open>components\<close> value of any type. On a manifest that the structural
  validator reports valid, \<^verbatim>\<open>flower\<close> is a key bound to a table, \<^verbatim>\<open>components\<close> is a
  key of that table, and both membership tests on its value hold; neither nested
  lookup of the orchestrator raises \<^verbatim>\<open>KeyError\<close>. When the value of \<^verbatim>\<open>components\<close>
  is a table, \<^verbatim>\<open>serverapp\<close> and \<^verbatim>\<open>clientapp\<close> are keys of it and both lookups return
  the bound values.
\<close>

theorem valid_fields_lookups:
  assumes "validate_flower_toml_fields config = Inr (True, errors, warnings)"
  shows
    "\<exists>flower comps.
       map_of config ''flower'' = Some (Table flower) \<and>
       map_of flower ''components'' = Some comps \<and>
       py_contains comps ''serverapp'' = Inr True \<and>
       py_contains comps ''clientapp'' = Inr True \<and>
       component config ''serverapp'' \<noteq> Inl KeyError \<and>
       component config ''clientapp'' \<noteq> Inl KeyError \<and>
       (\<forall>c. comps = Table c \<longrightarrow>
          (\<exists>s cl. map_of c ''serverapp'' = Some s \<and> map_of c ''clientapp'' = Some cl \<and>
             component config ''serverapp'' = Inr s \<and>
             component config ''clientapp'' = Inr cl))"
proof -
  from fields_valid_structure[OF assms] obtain flower comps where
    s: "map_of config ''flower'' = Some (Table flower)"
       "map_of flower ''components'' = Some comps"
       "py_contains comps ''serverapp'' = Inr True"
       "py_contains comps ''clientapp'' = Inr True"
    by blast
  have k: "component config ''serverapp'' \<noteq> Inl KeyError"
    "component config ''clientapp'' \<noteq> Inl KeyError"
    using s by (auto simp: component_KeyError dict_has_def)
  have t: "\<exists>s cl. map_of c ''serverapp'' = Some s \<and> map_of c ''clientapp'' = Some cl \<and>
             component config ''serverapp'' = Inr s \<and>
             component config ''clientapp'' = Inr cl" if "comps = Table c" for c
    using s that by (auto simp: component_Inr dict_has_def)
  from s k t show ?thesis by blast
qed

theorem valid_fields_lookups_witness:
  \<open>validate_flower_toml_fields (manifest (Str ''os:getcwd'') (Str ''os:path.join'')) =
     Inr (True, [],
       [''Recommended property "description" missing in [project]'',
        ''Recommended property "license" missing in [project]'',
        ''Recommended property "authors" missing in [project]'']) \<and>
   component (manifest (Str ''os:getcwd'') (Str ''os:path.join'')) ''serverapp'' =
     Inr (Str ''os:getcwd'') \<and>
   component (manifest (Str ''os:getcwd'') (Str ''os:path.join'')) ''clientapp'' =
     Inr (Str ''os:path.join'')\<close>
proof -
  have f: \<open>validate_flower_toml_fields (manifest (Str ''os:getcwd'') (Str ''os:path.join'')) =
     Inr (True, [],
       [''Recommended property "description" missing in [project]'',
        ''Recommended property "license" missing in [project]'',
        ''Recommended property "authors" missing in [project]''])\<close>
    by (simp add: fields_eval)
  from valid_fields_lookups[OF f] obtain flower comps where
    m: "map_of (manifest (Str ''os:getcwd'') (Str ''os:path.join'')) ''flower'' =
          Some (Table flower)"
       "map_of flower ''components'' = Some comps"
    and t: "\<forall>c. comps = Table c \<longrightarrow>
          (\<exists>s cl. map_of c ''serverapp'' = Some s \<and> map_of c ''clientapp'' = Some cl \<and>
             component (manifest (Str ''os:getcwd'') (Str ''os:path.join'')) ''serverapp''
               = Inr s \<and>
             component (manifest (Str ''os:getcwd'') (Str ''os:path.join'')) ''clientapp''
               = Inr cl)"
    by blast
  from m have "comps =
      Table [(''serverapp'', Str ''os:getcwd''), (''clientapp'', Str ''os:path.join'')]"
    by (auto simp: manifest_def)
  with t f show ?thesis by auto
qed

text \<open>
  With \<^verbatim>\<open>components = ["serverapp", "clientapp"]\<close> the validator reports valid, since
  both names are elements of the array; the value has no keys, and both lookups of the
  orchestrator raise \<^verbatim>\<open>TypeError\<close>.
\<close>

theorem valid_fields_lookups_counterexample:
  \<open>validate_flower_toml_fields manifest_components_array =
     Inr (True, [],
       [''Recommended property "description" missing in [project]'',
        ''Recommended property "license" missing in [project]'',
        ''Recommended property "authors" missing in [project]'']) \<and>
   exn_bind (py_getitem (Table manifest_components_array) ''flower'')
     (\<lambda>flower. py_getitem flower ''components'') =
     Inr (Array [Str ''serverapp'', Str ''clientapp'']) \<and>
   component manifest_components_array ''serverapp'' = Inl TypeError \<and>
   component manifest_components_array ''clientapp'' = Inl TypeError \<and>
   validate_flower_toml example_host manifest_components_array [] = (Inl TypeError, [])\<close>
  by (simp add: fields_eval validate_flower_toml_def validate_component_def component_def)

section \<open>Properties of the merge on values\<close>

lemma table_size_mem: "(k, Table d') \<in> set d \<Longrightarrow> size (Table d') < size (Table d)"
  by (induction d) auto

lemma spec_step:
  "apply_defaults_spec config ((key, dv) # rest) =
     apply_defaults_spec
       (case map_of config key of
          None \<Rightarrow> config @ [(key, dv)]
        | Some cv \<Rightarrow> AList.update key (merged_value cv dv) config)
       rest"
proof (cases "map_of config key")
  case None
  then show ?thesis by simp
next
  case (Some cv)
  then show ?thesis
    by (cases cv; cases dv) (simp_all add: AList.update_triv)
qed

lemma map_of_spec:
  "distinct (map fst defaults) \<Longrightarrow>
   map_of (apply_defaults_spec config defaults) key =
     (case map_of config key of
        None \<Rightarrow> map_of defaults key
      | Some cv \<Rightarrow>
          (case map_of defaults key of
             None \<Rightarrow> Some cv
           | Some dv \<Rightarrow> Some (merged_value cv dv)))"
proof (induction defaults arbitrary: config)
  case Nil
  then show ?case by (simp split: option.splits)
next
  case (Cons kv rest)
  obtain k dv where kv: "kv = (k, dv)" by (cases kv)
  from Cons.prems kv have d: "distinct (map fst rest)" and nk: "map_of rest k = None"
    by (auto simp: map_of_eq_None_iff)
  show ?case
  proof (cases "key = k")
    case True
    with nk show ?thesis
      unfolding kv spec_step Cons.IH[OF d]
      by (simp add: update_conv' map_add_def split: option.splits)
  next
    case False
    then show ?thesis
      unfolding kv spec_step Cons.IH[OF d]
      by (simp add: update_conv' map_add_def split: option.splits)
  qed
qed

lemma wf_dict_distinct: "wf_dict d \<Longrightarrow> distinct (map fst d)"
  by (simp add: wf_dict_def)

lemma wf_dict_nested: "wf_dict d \<Longrightarrow> map_of d key = Some (Table d') \<Longrightarrow> wf_dict d'"
proof -
  assume wf: "wf_dict d" and m: "map_of d key = Some (Table d')"
  from m have "(key, Table d') \<in> set d" by (rule map_of_SomeD)
  with wf have "wf_val (snd (key, Table d'))"
    unfolding wf_dict_def wf_val.simps list_all_iff by blast
  then show "wf_dict d'" by (simp add: wf_dict_def)
qed

lemma merged_value_not_table: "\<not> (is_table cv \<and> is_table dv) \<Longrightarrow> merged_value cv dv = cv"
  by (cases cv; cases dv) simp_all

lemma spec_fixed:
  assumes "\<And>key dv. (key, dv) \<in> set defaults \<Longrightarrow>
             \<exists>cv. map_of config key = Some cv \<and> merged_value cv dv = cv"
  shows "apply_defaults_spec config defaults = config"
  using assms
proof (induction defaults)
  case Nil
  then show ?case by simp
next
  case (Cons kv rest)
  obtain k dv where kv: "kv = (k, dv)" by (cases kv)
  from Cons.prems[of k dv] kv obtain cv where
    cv: "map_of config k = Some cv" "merged_value cv dv = cv"
    by auto
  have "apply_defaults_spec config rest = config"
    using Cons.prems by (intro Cons.IH) auto
  with cv show ?case
    unfolding kv spec_step by (simp add: AList.update_triv)
qed

lemma spec_self: "wf_dict d \<Longrightarrow> apply_defaults_spec d d = d"
proof (induction d rule: measure_induct_rule[where f = "\<lambda>d. size (Table d)"])
  case (less d)
  show ?case
  proof (rule spec_fixed)
    fix key dv
    assume mem: "(key, dv) \<in> set d"
    with less.prems have m: "map_of d key = Some dv"
      by (simp add: wf_dict_distinct)
    have "merged_value dv dv = dv"
    proof (cases "is_table dv")
      case True
      then obtain d' where d': "dv = Table d'" by (cases dv) auto
      with mem have "size (Table d') < size (Table d)" using table_size_mem by blast
      moreover from less.prems m d' have "wf_dict d'" by (simp add: wf_dict_nested)
      ultimately show ?thesis using less.IH[of d'] d' by simp
    next
      case False
      then show ?thesis by (simp add: merged_value_not_table)
    qed
    with m show "\<exists>cv. map_of d key = Some cv \<and> merged_value cv dv = cv" by simp
  qed
qed

lemma spec_twice:
  "wf_dict defaults \<Longrightarrow>
     apply_defaults_spec (apply_defaults_spec config defaults) defaults = apply_defaults_spec config defaults"
proof (induction defaults arbitrary: config
    rule: measure_induct_rule[where f = "\<lambda>d. size (Table d)"])
  case (less defaults)
  note dist = wf_dict_distinct[OF less.prems]
  show ?case
  proof (rule spec_fixed)
    fix key dv
    assume mem: "(key, dv) \<in> set defaults"
    with dist have m: "map_of defaults key = Some dv" by simp
    show "\<exists>cv. map_of (apply_defaults_spec config defaults) key = Some cv \<and>
            merged_value cv dv = cv"
    proof (cases "map_of config key")
      case None
      have "merged_value dv dv = dv"
      proof (cases "is_table dv")
        case True
        then obtain d' where d': "dv = Table d'" by (cases dv) auto
        with less.prems m have "wf_dict d'" by (simp add: wf_dict_nested)
        then show ?thesis using d' by (simp add: spec_self)
      next
        case False
        then show ?thesis by (simp add: merged_value_not_table)
      qed
      with None m show ?thesis by (simp add: map_of_spec[OF dist])
    next
      case (Some cv)
      have "merged_value (merged_value cv dv) dv = merged_value cv dv"
      proof (cases "is_table cv \<and> is_table dv")
        case True
        then obtain c' d' where cd: "cv = Table c'" "dv = Table d'"
          by (cases cv; cases dv) auto
        with mem have "size (Table d') < size (Table defaults)"
          using table_size_mem by blast
        moreover from less.prems m cd have "wf_dict d'" by (simp add: wf_dict_nested)
        ultimately show ?thesis using less.IH[of d' c'] cd by simp
      next
        case False
        then show ?thesis by (simp add: merged_value_not_table)
      qed
      with Some m show ?thesis by (simp add: map_of_spec[OF dist])
    qed
  qed
qed

lemma lookup_path_spec:
  "wf_dict defaults \<Longrightarrow> lookup_path config path = Some v \<Longrightarrow>
     lookup_path (apply_defaults_spec config defaults) path =
       Some (case lookup_path defaults path of None \<Rightarrow> v | Some dv \<Rightarrow> merged_value v dv)"
proof (induction path arbitrary: config defaults)
  case Nil
  then show ?case by auto
next
  case (Cons key path)
  note dist = wf_dict_distinct[OF Cons.prems(1)]
  from Cons.prems(2) obtain cv where cv: "map_of config key = Some cv"
    by (auto split: option.splits)
  show ?case
  proof (cases "map_of defaults key")
    case None
    with cv Cons.prems(2) show ?thesis
      by (simp add: map_of_spec[OF dist])
  next
    case (Some dv)
    show ?thesis
    proof (cases "is_table cv \<and> is_table dv")
      case True
      then obtain c' d' where cd: "cv = Table c'" "dv = Table d'"
        by (cases cv; cases dv) auto
      from Cons.prems(1) Some cd have "wf_dict d'" by (simp add: wf_dict_nested)
      moreover from Cons.prems(2) cv cd have "lookup_path c' path = Some v" by simp
      ultimately have "lookup_path (apply_defaults_spec c' d') path =
         Some (case lookup_path d' path of None \<Rightarrow> v | Some dv \<Rightarrow> merged_value v dv)"
        by (rule Cons.IH)
      with cv Some cd show ?thesis
        by (simp add: map_of_spec[OF dist])
    next
      case False
      then have keep: "merged_value cv dv = cv" by (simp add: merged_value_not_table)
      show ?thesis
      proof (cases "is_table cv")
        case True
        then obtain c' where c': "cv = Table c'" by (cases cv) auto
        with False have nt: "\<not> is_table dv" by simp
        show ?thesis
        proof (cases "path = []")
          case True
          with cv Some c' nt keep Cons.prems(2) show ?thesis
            by (cases dv) (auto simp: map_of_spec[OF dist])
        next
          case False
          with cv Some c' nt keep Cons.prems(2) show ?thesis
            by (cases dv) (auto simp: map_of_spec[OF dist])
        qed
      next
        case False
        with cv Cons.prems(2) have p: "path = []" "v = cv"
          by (cases cv; auto split: if_splits)+
        from False p cv Some keep show ?thesis
          by (cases cv; cases dv) (simp_all add: map_of_spec[OF dist])
      qed
    qed
  qed
qed

text \<open>
  The merge on values, for a defaults tree in which every table binds each key once:
  a key of \<open>defaults\<close> that \<open>config\<close> lacks is bound to its default value;
  a key bound to a table on both sides is bound to the merge of the two tables;
  a key that \<open>config\<close> binds keeps its value unless both values are tables, so a value
  that is not a table, or that meets a default that is not a table, is never replaced;
  no key appears that neither side had.
  At any depth: every path of keys that leads to a value in \<open>config\<close> still leads to a
  value after the merge, and to the same value when that value is not a table.
\<close>

lemma spec_fills_missing_only:
  assumes "wf_dict defaults"
  shows
    "(\<forall>key dv. map_of defaults key = Some dv \<and> map_of config key = None
        \<longrightarrow> map_of (apply_defaults_spec config defaults) key = Some dv) \<and>
     (\<forall>key c d. map_of config key = Some (Table c) \<and> map_of defaults key = Some (Table d)
        \<longrightarrow> map_of (apply_defaults_spec config defaults) key = Some (Table (apply_defaults_spec c d))) \<and>
     (\<forall>key cv. map_of config key = Some cv \<and>
          \<not> (is_table cv \<and> (\<exists>d. map_of defaults key = Some (Table d)))
        \<longrightarrow> map_of (apply_defaults_spec config defaults) key = Some cv) \<and>
     (\<forall>key. map_of config key = None \<and> map_of defaults key = None
        \<longrightarrow> map_of (apply_defaults_spec config defaults) key = None) \<and>
     (\<forall>path v. lookup_path config path = Some v
        \<longrightarrow> lookup_path (apply_defaults_spec config defaults) path \<noteq> None) \<and>
     (\<forall>path v. lookup_path config path = Some v \<and> \<not> is_table v
        \<longrightarrow> lookup_path (apply_defaults_spec config defaults) path = Some v)"
proof -
  note m = map_of_spec[OF wf_dict_distinct[OF assms], of config]
  have 1: "map_of (apply_defaults_spec config defaults) key = Some dv"
    if "map_of defaults key = Some dv \<and> map_of config key = None" for key dv
    using that by (simp add: m)
  have 2: "map_of (apply_defaults_spec config defaults) key = Some (Table (apply_defaults_spec c d))"
    if "map_of config key = Some (Table c) \<and> map_of defaults key = Some (Table d)"
    for key c d
    using that by (simp add: m)
  have 3: "map_of (apply_defaults_spec config defaults) key = Some cv"
    if "map_of config key = Some cv \<and>
          \<not> (is_table cv \<and> (\<exists>d. map_of defaults key = Some (Table d)))" for key cv
  proof (cases "map_of defaults key")
    case None
    with that show ?thesis by (simp add: m)
  next
    case (Some dv)
    with that have "\<not> (is_table cv \<and> is_table dv)" by (cases dv) auto
    with that Some show ?thesis by (simp add: m merged_value_not_table)
  qed
  have 4: "map_of (apply_defaults_spec config defaults) key = None"
    if "map_of config key = None \<and> map_of defaults key = None" for key
    using that by (simp add: m)
  have 5: "lookup_path (apply_defaults_spec config defaults) path \<noteq> None"
    if "lookup_path config path = Some v" for path v
    using lookup_path_spec[OF assms that] by simp
  have 6: "lookup_path (apply_defaults_spec config defaults) path = Some v"
    if "lookup_path config path = Some v \<and> \<not> is_table v" for path v
  proof -
    from that have "merged_value v dv = v" for dv by (simp add: merged_value_not_table)
    with lookup_path_spec[OF assms, of config path v] that show ?thesis
      by (simp split: option.splits)
  qed
  from 1 2 3 4 5 6 show ?thesis by blast
qed

lemma spec_fills_missing_only_example:
  "wf_dict [(''a'', Integer 2), (''b'', Integer 3)] \<and>
   map_of (apply_defaults_spec [(''a'', Integer 1)] [(''a'', Integer 2), (''b'', Integer 3)]) ''a''
     = Some (Integer 1) \<and>
   map_of (apply_defaults_spec [(''a'', Integer 1)] [(''a'', Integer 2), (''b'', Integer 3)]) ''b''
     = Some (Integer 3) \<and>
   map_of (apply_defaults_spec [(''a'', Integer 1)] [(''a'', Integer 2), (''b'', Integer 3)]) ''c''
     = None \<and>
   apply_defaults_spec [(''a'', Integer 1)] [(''a'', Integer 2), (''b'', Integer 3)] =
     [(''a'', Integer 1), (''b'', Integer 3)] \<and>
   wf_dict [(''a'', Table [(''x'', Integer 2), (''y'', Integer 3)])] \<and>
   map_of
     (apply_defaults_spec [(''a'', Table [(''x'', Integer 1)])]
        [(''a'', Table [(''x'', Integer 2), (''y'', Integer 3)])]) ''a''
     = Some (Table (apply_defaults_spec [(''x'', Integer 1)]
                      [(''x'', Integer 2), (''y'', Integer 3)])) \<and>
   lookup_path
     (apply_defaults_spec [(''a'', Table [(''x'', Integer 1)])]
        [(''a'', Table [(''x'', Integer 2), (''y'', Integer 3)])]) [''a'']
     \<noteq> None \<and>
   lookup_path
     (apply_defaults_spec [(''a'', Table [(''x'', Integer 1)])]
        [(''a'', Table [(''x'', Integer 2), (''y'', Integer 3)])]) [''a'', ''x'']
     = Some (Integer 1) \<and>
   apply_defaults_spec [(''a'', Table [(''x'', Integer 1)])]
       [(''a'', Table [(''x'', Integer 2), (''y'', Integer 3)])] =
     [(''a'', Table [(''x'', Integer 1), (''y'', Integer 3)])]"
proof -
  have w1: "wf_dict [(''a'', Integer 2), (''b'', Integer 3)]"
    and w2: "wf_dict [(''a'', Table [(''x'', Integer 2), (''y'', Integer 3)])]"
    by (simp_all add: wf_dict_def)
  note t1 = spec_fills_missing_only[OF w1, of "[(''a'', Integer 1)]"]
  note t2 = spec_fills_missing_only[OF w2, of "[(''a'', Table [(''x'', Integer 1)])]"]
  have a: "map_of (apply_defaults_spec [(''a'', Integer 1)] [(''a'', Integer 2), (''b'', Integer 3)])
      ''a'' = Some (Integer 1)"
    by (rule t1[THEN conjunct2, THEN conjunct2, THEN conjunct1, rule_format]) simp
  have b: "map_of (apply_defaults_spec [(''a'', Integer 1)] [(''a'', Integer 2), (''b'', Integer 3)])
      ''b'' = Some (Integer 3)"
    by (rule t1[THEN conjunct1, rule_format]) simp
  have c: "map_of (apply_defaults_spec [(''a'', Integer 1)] [(''a'', Integer 2), (''b'', Integer 3)])
      ''c'' = None"
    by (rule t1[THEN conjunct2, THEN conjunct2, THEN conjunct2, THEN conjunct1, rule_format])
      simp
  have m: "map_of
     (apply_defaults_spec [(''a'', Table [(''x'', Integer 1)])]
        [(''a'', Table [(''x'', Integer 2), (''y'', Integer 3)])]) ''a''
     = Some (Table (apply_defaults_spec [(''x'', Integer 1)]
                      [(''x'', Integer 2), (''y'', Integer 3)]))"
    by (rule t2[THEN conjunct2, THEN conjunct1, rule_format]) simp
  have p: "lookup_path
     (apply_defaults_spec [(''a'', Table [(''x'', Integer 1)])]
        [(''a'', Table [(''x'', Integer 2), (''y'', Integer 3)])]) [''a'']
     \<noteq> None"
    by (rule t2[THEN conjunct2, THEN conjunct2, THEN conjunct2, THEN conjunct2,
          THEN conjunct1, rule_format, of "[''a'']" "Table [(''x'', Integer 1)]"]) simp
  have x: "lookup_path
     (apply_defaults_spec [(''a'', Table [(''x'', Integer 1)])]
        [(''a'', Table [(''x'', Integer 2), (''y'', Integer 3)])]) [''a'', ''x'']
     = Some (Integer 1)"
    by (rule t2[THEN conjunct2, THEN conjunct2, THEN conjunct2, THEN conjunct2,
          THEN conjunct2, rule_format]) simp
  have e1: "apply_defaults_spec [(''a'', Integer 1)] [(''a'', Integer 2), (''b'', Integer 3)] =
     [(''a'', Integer 1), (''b'', Integer 3)]"
    by simp
  have e2: "apply_defaults_spec [(''a'', Table [(''x'', Integer 1)])]
       [(''a'', Table [(''x'', Integer 2), (''y'', Integer 3)])] =
     [(''a'', Table [(''x'', Integer 1), (''y'', Integer 3)])]"
    by simp
  from w1 w2 a b c m p x e1 e2 show ?thesis by blast
qed

lemma nested_assignments_not_table:
  "\<not> (is_table cv \<and> is_table dv) \<Longrightarrow> nested_assignments cv dv = 0"
  by (cases cv; cases dv) simp_all

lemma assignments_step:
  "assignments config ((key, dv) # rest) =
     (case map_of config key of
        None \<Rightarrow> Suc (assignments (config @ [(key, dv)]) rest)
      | Some cv \<Rightarrow>
          nested_assignments cv dv
          + assignments (AList.update key (merged_value cv dv) config) rest)"
proof (cases "map_of config key")
  case None
  then show ?thesis by simp
next
  case (Some cv)
  then show ?thesis
    by (cases cv; cases dv) (simp_all add: AList.update_triv)
qed

lemma assignments_none:
  assumes "\<And>key dv. (key, dv) \<in> set defaults \<Longrightarrow>
             \<exists>cv. map_of config key = Some cv \<and> merged_value cv dv = cv \<and>
                  nested_assignments cv dv = 0"
  shows "assignments config defaults = 0"
  using assms
proof (induction defaults)
  case Nil
  then show ?case by simp
next
  case (Cons kv rest)
  obtain k dv where kv: "kv = (k, dv)" by (cases kv)
  from Cons.prems[of k dv] kv obtain cv where
    cv: "map_of config k = Some cv" "merged_value cv dv = cv" "nested_assignments cv dv = 0"
    by auto
  have "assignments config rest = 0"
    using Cons.prems by (intro Cons.IH) auto
  with cv show ?case
    unfolding kv assignments_step by (simp add: AList.update_triv)
qed

lemma assignments_self: "wf_dict d \<Longrightarrow> assignments d d = 0"
proof (induction d rule: measure_induct_rule[where f = "\<lambda>d. size (Table d)"])
  case (less d)
  show ?case
  proof (rule assignments_none)
    fix key dv
    assume mem: "(key, dv) \<in> set d"
    with less.prems have m: "map_of d key = Some dv"
      by (simp add: wf_dict_distinct)
    have "merged_value dv dv = dv \<and> nested_assignments dv dv = 0"
    proof (cases "is_table dv")
      case True
      then obtain d' where d': "dv = Table d'" by (cases dv) auto
      with mem have "size (Table d') < size (Table d)" using table_size_mem by blast
      moreover from less.prems m d' have "wf_dict d'" by (simp add: wf_dict_nested)
      ultimately show ?thesis using less.IH[of d'] d' by (simp add: spec_self)
    next
      case False
      then show ?thesis by (simp add: merged_value_not_table nested_assignments_not_table)
    qed
    with m show "\<exists>cv. map_of d key = Some cv \<and> merged_value cv dv = cv \<and>
                  nested_assignments cv dv = 0" by simp
  qed
qed

lemma assignments_second_run:
  "wf_dict defaults \<Longrightarrow> assignments (apply_defaults_spec config defaults) defaults = 0"
proof (induction defaults arbitrary: config
    rule: measure_induct_rule[where f = "\<lambda>d. size (Table d)"])
  case (less defaults)
  note dist = wf_dict_distinct[OF less.prems]
  show ?case
  proof (rule assignments_none)
    fix key dv
    assume mem: "(key, dv) \<in> set defaults"
    with dist have m: "map_of defaults key = Some dv" by simp
    show "\<exists>cv. map_of (apply_defaults_spec config defaults) key = Some cv \<and>
            merged_value cv dv = cv \<and> nested_assignments cv dv = 0"
    proof (cases "map_of config key")
      case None
      have "merged_value dv dv = dv \<and> nested_assignments dv dv = 0"
      proof (cases "is_table dv")
        case True
        then obtain d' where d': "dv = Table d'" by (cases dv) auto
        with less.prems m have "wf_dict d'" by (simp add: wf_dict_nested)
        then show ?thesis using d' by (simp add: spec_self assignments_self)
      next
        case False
        then show ?thesis by (simp add: merged_value_not_table nested_assignments_not_table)
      qed
      with None m show ?thesis by (simp add: map_of_spec[OF dist])
    next
      case (Some cv)
      have "merged_value (merged_value cv dv) dv = merged_value cv dv \<and>
            nested_assignments (merged_value cv dv) dv = 0"
      proof (cases "is_table cv \<and> is_table dv")
        case True
        then obtain c' d' where cd: "cv = Table c'" "dv = Table d'"
          by (cases cv; cases dv) auto
        with mem have "size (Table d') < size (Table defaults)"
          using table_size_mem by blast
        moreover from less.prems m cd have "wf_dict d'" by (simp add: wf_dict_nested)
        ultimately show ?thesis using less.IH[of d' c'] cd
          by (simp add: spec_twice)
      next
        case False
        then show ?thesis by (simp add: merged_value_not_table nested_assignments_not_table)
      qed
      with Some m show ?thesis by (simp add: map_of_spec[OF dist])
    qed
  qed
qed

text \<open>
  Merging the same defaults a second time changes nothing, for a defaults tree in
  which every table binds each key once, and the second merge adds no entry at any
  depth.
\<close>

lemma spec_idempotent:
  "wf_dict defaults \<Longrightarrow>
     apply_defaults_spec (apply_defaults_spec config defaults) defaults = apply_defaults_spec config defaults \<and>
     assignments (apply_defaults_spec config defaults) defaults = 0"
  by (simp add: spec_twice assignments_second_run)

lemma spec_idempotent_example:
  "wf_dict [(''a'', Table [(''x'', Integer 2), (''y'', Integer 3)]), (''b'', Table [])] \<and>
   apply_defaults_spec [(''a'', Table [(''x'', Integer 1)])]
       [(''a'', Table [(''x'', Integer 2), (''y'', Integer 3)]), (''b'', Table [])] =
     [(''a'', Table [(''x'', Integer 1), (''y'', Integer 3)]), (''b'', Table [])] \<and>
   assignments [(''a'', Table [(''x'', Integer 1)])]
       [(''a'', Table [(''x'', Integer 2), (''y'', Integer 3)]), (''b'', Table [])] = 2 \<and>
   apply_defaults_spec
       (apply_defaults_spec [(''a'', Table [(''x'', Integer 1)])]
          [(''a'', Table [(''x'', Integer 2), (''y'', Integer 3)]), (''b'', Table [])])
       [(''a'', Table [(''x'', Integer 2), (''y'', Integer 3)]), (''b'', Table [])] =
     [(''a'', Table [(''x'', Integer 1), (''y'', Integer 3)]), (''b'', Table [])] \<and>
   assignments
       (apply_defaults_spec [(''a'', Table [(''x'', Integer 1)])]
          [(''a'', Table [(''x'', Integer 2), (''y'', Integer 3)]), (''b'', Table [])])
       [(''a'', Table [(''x'', Integer 2), (''y'', Integer 3)]), (''b'', Table [])] = 0"
proof -
  have w: "wf_dict [(''a'', Table [(''x'', Integer 2), (''y'', Integer 3)]), (''b'', Table [])]"
    by (simp add: wf_dict_def)
  have e: "apply_defaults_spec [(''a'', Table [(''x'', Integer 1)])]
       [(''a'', Table [(''x'', Integer 2), (''y'', Integer 3)]), (''b'', Table [])] =
     [(''a'', Table [(''x'', Integer 1), (''y'', Integer 3)]), (''b'', Table [])]"
    by simp
  have n: "assignments [(''a'', Table [(''x'', Integer 1)])]
       [(''a'', Table [(''x'', Integer 2), (''y'', Integer 3)]), (''b'', Table [])] = 2"
    by simp
  from spec_idempotent[OF w, of "[(''a'', Table [(''x'', Integer 1)])]"] w e n
  show ?thesis by simp
qed

section \<open>A run on unshared objects computes the merge\<close>

lemma map_of_entries:
  "map_of (map (\<lambda>kt. (fst kt, f (snd kt))) es) k = map_option f (map_of es k)"
  by (induction es) auto

lemma holds_leaves_ok: "holds s t \<Longrightarrow> leaves_ok t"
  by (induction t) auto

lemma holds_frame: "holds s t \<Longrightarrow> \<forall>a \<in> labels t. s' a = s a \<Longrightarrow> holds s' t"
proof (induction t)
  case (LLeaf v)
  then show ?case by simp
next
  case (LNode a es)
  have "holds s' (snd kt)" if "kt \<in> set es" for kt
  proof -
    from that LNode.prems have "holds s (snd kt)" "\<forall>x \<in> labels (snd kt). s' x = s x"
      by auto
    moreover obtain k t where kt: "kt = (k, t)" by (cases kt)
    ultimately show ?thesis
      using that LNode.IH[of "(k, t)" t] by simp
  qed
  with LNode.prems show ?case by simp
qed

lemma is_table_erase: "leaves_ok t \<Longrightarrow> is_table (erase t) = (\<exists>a es. t = LNode a es)"
  by (cases t) auto

lemma erase_update:
  "entries_erase (AList.update k t es) = AList.update k (erase t) (entries_erase es)"
  by (induction es) auto

lemma set_update_cases:
  "kt \<in> set (AList.update k t es) \<Longrightarrow> kt = (k, t) \<or> kt \<in> set es"
  by (induction es) (auto split: if_splits)

lemma set_update_distinct:
  "distinct (map fst es) \<Longrightarrow> kt \<in> set (AList.update k t es) \<Longrightarrow>
     kt = (k, t) \<or> (kt \<in> set es \<and> fst kt \<noteq> k)"
  by (induction es) (auto split: if_splits simp: rev_image_eqI)

lemma leaves_ok_lmerge:
  "\<forall>kt \<in> set ces. leaves_ok (snd kt) \<Longrightarrow> \<forall>kt \<in> set des. leaves_ok (snd kt) \<Longrightarrow>
     \<forall>kt \<in> set (lmerge ces des). leaves_ok (snd kt)"
proof (induction ces des rule: lmerge.induct)
  case (1 ces)
  then show ?case by simp
next
  case (2 ces key dt rest)
  from "2.prems" have ldt: "leaves_ok dt" and lrest: "\<forall>kt \<in> set rest. leaves_ok (snd kt)"
    by auto
  show ?case
  proof (cases "map_of ces key")
    case None
    with "2.IH"(2) "2.prems" show ?thesis by simp
  next
    case (Some ct)
    then have mem: "(key, ct) \<in> set ces" by (rule map_of_SomeD)
    with "2.prems" have lct: "leaves_ok ct" by auto
    show ?thesis
    proof (cases "\<exists>a ces' b des'. ct = LNode a ces' \<and> dt = LNode b des'")
      case True
      then obtain a ces' b des' where ct: "ct = LNode a ces'" and dt: "dt = LNode b des'"
        by blast
      from lct ldt ct dt have l: "\<forall>kt \<in> set ces'. leaves_ok (snd kt)"
        "\<forall>kt \<in> set des'. leaves_ok (snd kt)" by auto
      have "\<forall>kt \<in> set (lmerge ces' des'). leaves_ok (snd kt)"
        using "2.IH"(1)[OF Some ct dt l] .
      then have "\<forall>kt \<in> set (AList.update key (LNode a (lmerge ces' des')) ces).
          leaves_ok (snd kt)"
        using "2.prems"(1) by (auto dest!: set_update_cases)
      with "2.IH"(2) lrest Some ct dt
      show ?thesis by simp
    next
      case False
      then have "(case ct of
               LNode a ces' \<Rightarrow>
                 (case dt of
                    LNode b des' \<Rightarrow> AList.update key (LNode a (lmerge ces' des')) ces
                  | _ \<Rightarrow> ces)
             | _ \<Rightarrow> ces) = ces"
        by (cases ct; cases dt) auto
      with "2.IH"(2) "2.prems"(1) lrest Some show ?thesis by simp
    qed
  qed
qed

lemma lmerge_step:
  "lmerge ces ((key, dt) # rest) =
     lmerge
       (case map_of ces key of
          None \<Rightarrow> ces @ [(key, dt)]
        | Some ct \<Rightarrow> AList.update key (lmerged ct dt) ces)
       rest"
proof (cases "map_of ces key")
  case None
  then show ?thesis by simp
next
  case (Some ct)
  then show ?thesis
    by (cases ct; cases dt) (simp_all add: AList.update_triv)
qed

lemma href_lmerged: "href (lmerged ct dt) = href ct"
  by (cases ct; cases dt) simp_all

lemma erase_lmerged:
  assumes "leaves_ok ct" "leaves_ok dt"
    and "\<And>a ces' b des'. ct = LNode a ces' \<Longrightarrow> dt = LNode b des' \<Longrightarrow>
          entries_erase (lmerge ces' des') =
            apply_defaults_spec (entries_erase ces') (entries_erase des')"
  shows "erase (lmerged ct dt) = merged_value (erase ct) (erase dt)"
proof (cases ct)
  case (LLeaf v)
  with assms(1) show ?thesis by (simp add: merged_value_not_table)
next
  case ct: (LNode a ces')
  show ?thesis
  proof (cases dt)
    case (LLeaf v)
    with assms(2) ct show ?thesis by (simp add: merged_value_not_table)
  next
    case (LNode b des')
    with ct assms(3) show ?thesis by simp
  qed
qed

lemma erase_lmerge:
  "\<forall>kt \<in> set ces. leaves_ok (snd kt) \<Longrightarrow> \<forall>kt \<in> set des. leaves_ok (snd kt) \<Longrightarrow>
     entries_erase (lmerge ces des) = apply_defaults_spec (entries_erase ces) (entries_erase des)"
proof (induction ces des rule: lmerge.induct)
  case (1 ces)
  then show ?case by simp
next
  case (2 ces key dt rest)
  from "2.prems" have ldt: "leaves_ok dt" and lrest: "\<forall>kt \<in> set rest. leaves_ok (snd kt)"
    by auto
  let ?step = "case map_of ces key of
          None \<Rightarrow> ces @ [(key, dt)]
        | Some ct \<Rightarrow> AList.update key (lmerged ct dt) ces"
  have step_eq: "(case map_of ces key of
          None \<Rightarrow> ces @ [(key, dt)]
        | Some ct \<Rightarrow>
            (case ct of
               LNode a ces' \<Rightarrow>
                 (case dt of
                    LNode b des' \<Rightarrow> AList.update key (LNode a (lmerge ces' des')) ces
                  | _ \<Rightarrow> ces)
             | _ \<Rightarrow> ces)) = ?step"
  proof (cases "map_of ces key")
    case None
    then show ?thesis by simp
  next
    case (Some ct)
    then show ?thesis by (cases ct; cases dt) (simp_all add: AList.update_triv)
  qed
  have lstep: "\<forall>kt \<in> set ?step. leaves_ok (snd kt)"
    and estep: "entries_erase ?step =
      (case map_of (entries_erase ces) key of
          None \<Rightarrow> entries_erase ces @ [(key, erase dt)]
        | Some cv \<Rightarrow> AList.update key (merged_value cv (erase dt)) (entries_erase ces))"
  proof -
    show "\<forall>kt \<in> set ?step. leaves_ok (snd kt)"
    proof (cases "map_of ces key")
      case None
      with "2.prems"(1) ldt show ?thesis by simp
    next
      case (Some ct)
      then have "(key, ct) \<in> set ces" by (rule map_of_SomeD)
      with "2.prems"(1) have lct: "leaves_ok ct" by auto
      have "leaves_ok (lmerged ct dt)"
      proof (cases "\<exists>a ces' b des'. ct = LNode a ces' \<and> dt = LNode b des'")
        case True
        then obtain a ces' b des' where cd: "ct = LNode a ces'" "dt = LNode b des'" by blast
        with lct ldt have "\<forall>kt \<in> set (lmerge ces' des'). leaves_ok (snd kt)"
          by (intro leaves_ok_lmerge) auto
        with cd show ?thesis by simp
      next
        case False
        then have "lmerged ct dt = ct" by (cases ct; cases dt) auto
        with lct show ?thesis by simp
      qed
      with Some "2.prems"(1) show ?thesis by (auto dest!: set_update_cases)
    qed
    show "entries_erase ?step =
      (case map_of (entries_erase ces) key of
          None \<Rightarrow> entries_erase ces @ [(key, erase dt)]
        | Some cv \<Rightarrow> AList.update key (merged_value cv (erase dt)) (entries_erase ces))"
    proof (cases "map_of ces key")
      case None
      then show ?thesis by (simp add: map_of_entries)
    next
      case (Some ct)
      then have "(key, ct) \<in> set ces" by (rule map_of_SomeD)
      with "2.prems"(1) have lct: "leaves_ok ct" by auto
      have "erase (lmerged ct dt) = merged_value (erase ct) (erase dt)"
      proof (rule erase_lmerged[OF lct ldt])
        fix a ces' b des'
        assume cd: "ct = LNode a ces'" "dt = LNode b des'"
        with lct ldt have "\<forall>kt \<in> set ces'. leaves_ok (snd kt)"
          "\<forall>kt \<in> set des'. leaves_ok (snd kt)" by auto
        then show "entries_erase (lmerge ces' des') =
            apply_defaults_spec (entries_erase ces') (entries_erase des')"
          using "2.IH"(1)[OF Some cd] by simp
      qed
      with Some show ?thesis by (simp add: map_of_entries erase_update)
    qed
  qed
  have ih: "entries_erase (lmerge ?step rest) =
      apply_defaults_spec (entries_erase ?step) (entries_erase rest)"
    using "2.IH"(2) lstep lrest unfolding step_eq by simp
  have pure: "apply_defaults_spec (entries_erase ces) (entries_erase ((key, dt) # rest)) =
      apply_defaults_spec (entries_erase ?step) (entries_erase rest)"
    unfolding estep
    using spec_step[of "entries_erase ces" key "erase dt" "entries_erase rest"]
    by (simp del: apply_defaults_spec.simps)
  show ?case
    unfolding lmerge_step pure using ih .
qed

lemma fold_max_ge: "(m::nat) \<le> fold max xs m"
  by (induction xs arbitrary: m) (auto intro: order_trans[OF max.cobounded2])

lemma fold_max_mem: "x \<in> set xs \<Longrightarrow> (x::nat) \<le> fold max xs m"
proof (induction xs arbitrary: m)
  case Nil
  then show ?case by simp
next
  case (Cons y ys)
  show ?case
  proof (cases "x = y")
    case True
    have "x \<le> max y m" using True by simp
    also have "\<dots> \<le> fold max ys (max y m)" by (rule fold_max_ge)
    finally show ?thesis by simp
  next
    case False
    with Cons show ?thesis by simp
  qed
qed

lemma depth_child: "kt \<in> set es \<Longrightarrow> depth (LNode a es) \<le> Suc n \<Longrightarrow> depth (snd kt) \<le> n"
  using fold_max_mem[of "depth (snd kt)" "map (\<lambda>kt. depth (snd kt)) es" 0] by auto

lemma step_case_eq:
  "map_of config key = Some cv \<Longrightarrow>
     (case cv of
        Table c \<Rightarrow>
          (case dv of
             Table d \<Rightarrow> AList.update key (Table (apply_defaults_spec c d)) config
           | _ \<Rightarrow> config)
      | _ \<Rightarrow> config) = AList.update key (merged_value cv dv) config"
  by (cases cv; cases dv) (simp_all add: AList.update_triv)

lemma assignments_zero_fixed:
  "assignments config defaults = 0 \<Longrightarrow> apply_defaults_spec config defaults = config"
proof (induction config defaults rule: apply_defaults_spec.induct)
  case (1 config)
  then show ?case by simp
next
  case (2 config key dv rest)
  from "2.prems" obtain cv where cv: "map_of config key = Some cv"
    and n: "nested_assignments cv dv = 0"
    and r: "assignments (AList.update key (merged_value cv dv) config) rest = 0"
    unfolding assignments_step by (auto split: option.splits)
  have keep: "merged_value cv dv = cv"
  proof (cases "is_table cv \<and> is_table dv")
    case True
    then obtain c d where cd: "cv = Table c" "dv = Table d" by (cases cv; cases dv) auto
    with n "2.IH"(1)[OF cv cd] show ?thesis by simp
  next
    case False
    then show ?thesis by (simp add: merged_value_not_table)
  qed
  with cv have same: "AList.update key (merged_value cv dv) config = config"
    by (simp add: AList.update_triv)
  with r have "assignments config rest = 0" by simp
  with "2.IH"(2) cv same have "apply_defaults_spec config rest = config"
    by (simp add: step_case_eq)
  with cv same show ?case
    unfolding spec_step by simp
qed

lemma keys_entries: "map (fst \<circ> (\<lambda>kt. (fst kt, f (snd kt)))) es = map fst es"
  by (simp add: comp_def)

lemma lwf_child: "lwf (LNode d des) \<Longrightarrow> (k, t) \<in> set des \<Longrightarrow> lwf t"
  by force

lemma holds_child: "holds s (LNode a es) \<Longrightarrow> (k, t) \<in> set es \<Longrightarrow> holds s t"
  by force

lemma loop_no_write:
  assumes "holds s (LNode c ces)" and "holds s (LNode d des)" and "lwf (LNode d des)"
    and "set rest \<subseteq> set des" and "\<forall>kt \<in> set rest. depth (snd kt) \<le> fuel"
    and "assignments (entries_erase ces) (entries_erase rest) = 0"
  shows "apply_defaults_loop fuel s c d (length des) (map fst rest) = Inr s"
  using assms
proof (induction fuel arbitrary: c ces d des rest rule: less_induct)
  case (less fuel)
  note outer = less.IH
  from less.prems(2) have sd: "s d = entries_href des" by simp
  from less.prems(1) have sc: "s c = entries_href ces" by simp
  from less.prems(3) have dist: "distinct (map fst des)" by simp
  from less.prems(4,5,6) show ?case
  proof (induction rest)
    case Nil
    with sd show ?case by simp
  next
    case (Cons kt rest)
    obtain k dt where kt: "kt = (k, dt)" by (cases kt)
    from Cons.prems(1) kt have mem: "(k, dt) \<in> set des" by simp
    with dist have md: "map_of des k = Some dt" by simp
    from Cons.prems(3) kt
    have "assignments (entries_erase ces) ((k, erase dt) # entries_erase rest) = 0"
      by (simp del: assignments.simps)
    then obtain ct where ct: "map_of ces k = Some ct"
      and n: "nested_assignments (erase ct) (erase dt) = 0"
      and r: "assignments (AList.update k (merged_value (erase ct) (erase dt))
               (entries_erase ces)) (entries_erase rest) = 0"
      unfolding assignments_step by (auto simp: map_of_entries split: option.splits)
    have hct: "holds s ct"
      using less.prems(1) map_of_SomeD[OF ct] by (rule holds_child)
    have hdt: "holds s dt"
      using less.prems(2) mem by (rule holds_child)
    note lct = holds_leaves_ok[OF hct] and ldt = holds_leaves_ok[OF hdt]
    have keep: "merged_value (erase ct) (erase dt) = erase ct"
    proof (cases "is_table (erase ct) \<and> is_table (erase dt)")
      case True
      then obtain c' d' where cd: "erase ct = Table c'" "erase dt = Table d'"
        by (cases "erase ct"; cases "erase dt") auto
      with n show ?thesis by (simp add: assignments_zero_fixed)
    next
      case False
      then show ?thesis by (simp add: merged_value_not_table)
    qed
    with ct have "AList.update k (merged_value (erase ct) (erase dt)) (entries_erase ces)
        = entries_erase ces"
      by (simp add: AList.update_triv map_of_entries)
    with r have r': "assignments (entries_erase ces) (entries_erase rest) = 0" by simp
    have tail: "apply_defaults_loop fuel s c d (length des) (map fst rest) = Inr s"
      using Cons.IH Cons.prems(1,2) r' by simp
    show ?case
    proof (cases "\<exists>a ces' b des'. ct = LNode a ces' \<and> dt = LNode b des'")
      case True
      then obtain a ces' b des' where cd: "ct = LNode a ces'" "dt = LNode b des'" by blast
      from Cons.prems(2) kt cd obtain m where fuel: "fuel = Suc m"
        by (cases fuel) auto
      have "apply_defaults_loop m s a b (length des') (map fst des') = Inr s"
      proof (rule outer)
        show "m < fuel" using fuel by simp
        show "holds s (LNode a ces')" using hct cd by simp
        show "holds s (LNode b des')" using hdt cd by simp
        show "lwf (LNode b des')" using lwf_child[OF less.prems(3) mem] cd by simp
        show "set des' \<subseteq> set des'" by simp
        show "\<forall>kt \<in> set des'. depth (snd kt) \<le> m"
          using Cons.prems(2) kt cd fuel depth_child[of _ des' b m] by auto
        show "assignments (entries_erase ces') (entries_erase des') = 0"
          using n cd by simp
      qed
      moreover from hdt cd have "s b = entries_href des'" by simp
      ultimately show ?thesis
        using kt sd sc ct md cd fuel tail by (simp add: map_of_entries keys_entries)
    next
      case False
      then show ?thesis
        using kt sd sc ct md tail
        by (cases ct; cases dt) (simp_all add: map_of_entries)
    qed
  qed
qed

lemma labels_child: "(k, t) \<in> set es \<Longrightarrow> labels t \<subseteq> labels (LNode a es)"
  by force

lemma labels_lmerge:
  "(\<Union>kt \<in> set (lmerge ces des). labels (snd kt)) \<subseteq>
     (\<Union>kt \<in> set ces. labels (snd kt)) \<union> (\<Union>kt \<in> set des. labels (snd kt))"
proof (induction ces des rule: lmerge.induct)
  case (1 ces)
  then show ?case by simp
next
  case (2 ces key dt rest)
  let ?step = "case map_of ces key of
          None \<Rightarrow> ces @ [(key, dt)]
        | Some ct \<Rightarrow> AList.update key (lmerged ct dt) ces"
  have step_eq: "(case map_of ces key of
          None \<Rightarrow> ces @ [(key, dt)]
        | Some ct \<Rightarrow>
            (case ct of
               LNode a ces' \<Rightarrow>
                 (case dt of
                    LNode b des' \<Rightarrow> AList.update key (LNode a (lmerge ces' des')) ces
                  | _ \<Rightarrow> ces)
             | _ \<Rightarrow> ces)) = ?step"
  proof (cases "map_of ces key")
    case None
    then show ?thesis by simp
  next
    case (Some ct)
    then show ?thesis by (cases ct; cases dt) (simp_all add: AList.update_triv)
  qed
  have st: "(\<Union>kt \<in> set ?step. labels (snd kt)) \<subseteq>
     (\<Union>kt \<in> set ces. labels (snd kt)) \<union> labels dt"
  proof (cases "map_of ces key")
    case None
    then show ?thesis by auto
  next
    case (Some ct)
    then have mem: "(key, ct) \<in> set ces" by (rule map_of_SomeD)
    have "labels (lmerged ct dt) \<subseteq> labels ct \<union> labels dt"
    proof (cases "\<exists>a ces' b des'. ct = LNode a ces' \<and> dt = LNode b des'")
      case True
      then obtain a ces' b des' where cd: "ct = LNode a ces'" "dt = LNode b des'" by blast
      from "2.IH"(1)[OF Some cd] cd show ?thesis by auto
    next
      case False
      then have "lmerged ct dt = ct" by (cases ct; cases dt) auto
      then show ?thesis by simp
    qed
    moreover from mem have "labels ct \<subseteq> (\<Union>kt \<in> set ces. labels (snd kt))" by force
    ultimately show ?thesis using Some by (auto dest!: set_update_cases)
  qed
  from "2.IH"(2) have ih: "(\<Union>kt \<in> set (lmerge ?step rest). labels (snd kt)) \<subseteq>
     (\<Union>kt \<in> set ?step. labels (snd kt)) \<union> (\<Union>kt \<in> set rest. labels (snd kt))"
    unfolding step_eq .
  have "(\<Union>kt \<in> set (lmerge ?step rest). labels (snd kt)) \<subseteq>
     (\<Union>kt \<in> set ces. labels (snd kt)) \<union> (labels dt \<union> (\<Union>kt \<in> set rest. labels (snd kt)))"
    using ih st by blast
  then show ?case unfolding lmerge_step by simp
qed

lemma labels_lmerged: "labels (lmerged ct dt) \<subseteq> labels ct \<union> labels dt"
proof (cases "\<exists>a ces' b des'. ct = LNode a ces' \<and> dt = LNode b des'")
  case True
  then obtain a ces' b des' where cd: "ct = LNode a ces'" "dt = LNode b des'" by blast
  with labels_lmerge[of ces' des'] show ?thesis by auto
next
  case False
  then have "lmerged ct dt = ct" by (cases ct; cases dt) auto
  then show ?thesis by simp
qed

lemma entries_href_update:
  "map_of ces k = Some t \<Longrightarrow> href t' = href t \<Longrightarrow>
     entries_href (AList.update k t' ces) = entries_href ces"
  by (induction ces) (auto split: if_splits)

lemma tree_shaped_child:
  "tree_shaped (LNode a es) \<Longrightarrow> (k, t) \<in> set es \<Longrightarrow> tree_shaped t \<and> a \<notin> labels t"
  by force

lemma tree_shaped_siblings:
  "tree_shaped (LNode a es) \<Longrightarrow> (k, t) \<in> set es \<Longrightarrow> (k', t') \<in> set es \<Longrightarrow> k \<noteq> k' \<Longrightarrow>
     labels t \<inter> labels t' = {}"
  by force

lemma loop_merge:
  assumes "holds s (LNode c ces)" and "holds s (LNode d des)" and "lwf (LNode d des)"
    and "distinct (map fst ces)"
    and "set rest \<subseteq> set des" and "distinct (map fst rest)"
    and "\<forall>kt \<in> set rest. depth (snd kt) \<le> fuel"
    and "c \<notin> labels (LNode d des)"
    and "\<forall>kt \<in> set ces. c \<notin> labels (snd kt)"
    and "\<forall>kt \<in> set rest. \<forall>ct. map_of ces (fst kt) = Some ct \<longrightarrow>
           tree_shaped ct \<and> labels ct \<inter> labels (LNode d des) = {} \<and>
           (\<forall>kt' \<in> set ces. fst kt' \<noteq> fst kt \<longrightarrow> labels ct \<inter> labels (snd kt') = {})"
  shows "\<exists>s'. apply_defaults_loop fuel s c d (length des) (map fst rest) = Inr s' \<and>
           holds s' (LNode c (lmerge ces rest)) \<and>
           (\<forall>x. x \<noteq> c \<and> (\<forall>kt \<in> set rest. \<forall>ct. map_of ces (fst kt) = Some ct \<longrightarrow>
                   x \<notin> labels ct) \<longrightarrow> s' x = s x)"
  using assms
proof (induction fuel arbitrary: s c ces d des rest rule: less_induct)
  case (less fuel)
  note outer = less.IH
  note wf = less.prems(3) and cd = less.prems(8)
  have dist: "distinct (map fst des)" using wf by simp
  from less.prems(1,2,4,5,6,7,9,10) show ?case
  proof (induction rest arbitrary: s ces)
    case Nil
    from Nil.prems(2) have "length (s d) = length des" by simp
    then have "apply_defaults_loop fuel s c d (length des) (map fst []) = Inr s" by simp
    moreover have "lmerge ces [] = ces" by simp
    ultimately show ?case using Nil.prems(1) by (intro exI[of _ s]) simp
  next
    case (Cons kt rest)
    obtain k dt where kt: "kt = (k, dt)" by (cases kt)
    note hc = Cons.prems(1) and hd = Cons.prems(2) and dc = Cons.prems(3)
      and cc = Cons.prems(7) and sep = Cons.prems(8)
    from Cons.prems(4) kt have mem: "(k, dt) \<in> set des" and sub: "set rest \<subseteq> set des"
      by auto
    from Cons.prems(5) kt have knew: "k \<notin> fst ` set rest" and dr: "distinct (map fst rest)"
      by auto
    from Cons.prems(6) kt have fdt: "depth dt \<le> fuel"
      and frest: "\<forall>kt \<in> set rest. depth (snd kt) \<le> fuel" by auto
    from mem dist have md: "map_of des k = Some dt" by simp
    from hd have sd: "s d = entries_href des" by simp
    from hc have sc: "s c = entries_href ces" by simp
    have hdt: "holds s dt" using hd mem by (rule holds_child)
    have ldt: "labels dt \<subseteq> labels (LNode d des)" using mem by (rule labels_child)
    \<comment> \<open>One step of the loop: the store and the entries of \<open>c\<close> after it.\<close>
    have "\<exists>s1 ces1.
        apply_defaults_loop fuel s c d (length des) (map fst (kt # rest)) =
          apply_defaults_loop fuel s1 c d (length des) (map fst rest) \<and>
        lmerge ces (kt # rest) = lmerge ces1 rest \<and>
        holds s1 (LNode c ces1) \<and> holds s1 (LNode d des) \<and> distinct (map fst ces1) \<and>
        (\<forall>kt \<in> set ces1. c \<notin> labels (snd kt)) \<and>
        (\<forall>k'. k' \<noteq> k \<longrightarrow> map_of ces1 k' = map_of ces k') \<and>
        (\<forall>kt' \<in> set ces1. fst kt' = k \<longrightarrow>
           labels (snd kt') \<subseteq> labels dt \<union> (case map_of ces k of None \<Rightarrow> {} | Some ct \<Rightarrow> labels ct)) \<and>
        (\<forall>kt' \<in> set ces1. fst kt' \<noteq> k \<longrightarrow> kt' \<in> set ces) \<and>
        (\<forall>x. x \<noteq> c \<and> (\<forall>ct. map_of ces k = Some ct \<longrightarrow> x \<notin> labels ct) \<longrightarrow> s1 x = s x)"
    proof (cases "map_of ces k")
      case None
      let ?s1 = "s(c := s c @ [(k, href dt)])"
      let ?ces1 = "ces @ [(k, dt)]"
      from None have kc: "k \<notin> fst ` set ces" by (simp add: map_of_eq_None_iff)
      have fr: "\<forall>x. x \<noteq> c \<longrightarrow> ?s1 x = s x" by simp
      have 1: "apply_defaults_loop fuel s c d (length des) (map fst (kt # rest)) =
          apply_defaults_loop fuel ?s1 c d (length des) (map fst rest)"
        using kt sd sc None md by (simp add: map_of_entries)
      have 2: "lmerge ces (kt # rest) = lmerge ?ces1 rest"
        using kt None by (simp add: lmerge_step)
      have 3: "holds ?s1 (LNode c ?ces1)"
      proof -
        have "holds ?s1 (snd kt')" if "kt' \<in> set ?ces1" for kt'
        proof (cases "kt' \<in> set ces")
          case True
          then have h: "holds s (snd kt')" using hc by simp
          from True cc have "c \<notin> labels (snd kt')" by simp
          then have "\<forall>a \<in> labels (snd kt'). ?s1 a = s a" by auto
          with h show ?thesis by (rule holds_frame)
        next
          case False
          with that have e: "snd kt' = dt" by auto
          from ldt cd have "c \<notin> labels dt" by auto
          then have "\<forall>a \<in> labels dt. ?s1 a = s a" by auto
          with hdt have "holds ?s1 dt" by (rule holds_frame)
          with e show ?thesis by simp
        qed
        with sc show ?thesis by simp
      qed
      have 4: "holds ?s1 (LNode d des)"
      proof (rule holds_frame[OF hd])
        show "\<forall>a \<in> labels (LNode d des). ?s1 a = s a" using cd by auto
      qed
      have 5: "distinct (map fst ?ces1)" using dc kc by simp
      have 6: "\<forall>kt \<in> set ?ces1. c \<notin> labels (snd kt)"
        using cc ldt cd by auto
      have 7: "\<forall>k'. k' \<noteq> k \<longrightarrow> map_of ?ces1 k' = map_of ces k'"
        by (simp add: map_add_def split: option.splits)
      have 8: "\<forall>kt' \<in> set ?ces1. fst kt' = k \<longrightarrow>
           labels (snd kt') \<subseteq> labels dt \<union> (case map_of ces k of None \<Rightarrow> {} | Some ct \<Rightarrow> labels ct)"
        using kc by force
      have 9: "\<forall>kt' \<in> set ?ces1. fst kt' \<noteq> k \<longrightarrow> kt' \<in> set ces" by auto
      from 1 2 3 4 5 6 7 8 9 fr show ?thesis by blast
    next
      case (Some ct)
      then have cmem: "(k, ct) \<in> set ces" by (rule map_of_SomeD)
      have hct: "holds s ct" using hc cmem by (rule holds_child)
      from sep kt Some have ts: "tree_shaped ct"
        and dj: "labels ct \<inter> labels (LNode d des) = {}"
        and oth: "\<forall>kt' \<in> set ces. fst kt' \<noteq> k \<longrightarrow> labels ct \<inter> labels (snd kt') = {}"
        by auto
      from cc cmem have cct: "c \<notin> labels ct" by force
      let ?ces1 = "AList.update k (lmerged ct dt) ces"
      have 2: "lmerge ces (kt # rest) = lmerge ?ces1 rest"
        using kt Some by (simp add: lmerge_step del: lmerge.simps)
      have 5: "distinct (map fst ?ces1)" using dc by (simp add: distinct_update)
      have 7: "\<forall>k'. k' \<noteq> k \<longrightarrow> map_of ?ces1 k' = map_of ces k'"
        by (simp add: update_conv')
      have 9: "\<forall>kt' \<in> set ?ces1. fst kt' \<noteq> k \<longrightarrow> kt' \<in> set ces"
        by (auto dest!: set_update_cases)
      have 8: "\<forall>kt' \<in> set ?ces1. fst kt' = k \<longrightarrow>
           labels (snd kt') \<subseteq> labels dt \<union> (case map_of ces k of None \<Rightarrow> {} | Some ct \<Rightarrow> labels ct)"
      proof (intro ballI impI)
        fix kt' assume "kt' \<in> set ?ces1" "fst kt' = k"
        with set_update_distinct[OF dc, of kt' k "lmerged ct dt"]
        have "kt' = (k, lmerged ct dt)" by auto
        with labels_lmerged[of ct dt] Some
        show "labels (snd kt') \<subseteq> labels dt \<union> (case map_of ces k of None \<Rightarrow> {} | Some ct \<Rightarrow> labels ct)"
          by auto
      qed
      have 6: "\<forall>kt \<in> set ?ces1. c \<notin> labels (snd kt)"
      proof
        fix kt' assume a: "kt' \<in> set ?ces1"
        show "c \<notin> labels (snd kt')"
        proof (cases "fst kt' = k")
          case True
          with 8 a Some have "labels (snd kt') \<subseteq> labels dt \<union> labels ct" by auto
          with cct ldt cd show ?thesis by auto
        next
          case False
          with 9 a cc show ?thesis by auto
        qed
      qed
      \<comment> \<open>The store after the step: changed only inside the labels of \<open>ct\<close>.\<close>
      have "\<exists>s1. apply_defaults_loop fuel s c d (length des) (map fst (kt # rest)) =
                 apply_defaults_loop fuel s1 c d (length des) (map fst rest) \<and>
               holds s1 (lmerged ct dt) \<and> (\<forall>x. x \<notin> labels ct \<longrightarrow> s1 x = s x)"
      proof (cases "\<exists>a ces' b des'. ct = LNode a ces' \<and> dt = LNode b des'")
        case False
        then have same: "lmerged ct dt = ct" by (cases ct; cases dt) auto
        from False have "apply_defaults_loop fuel s c d (length des) (map fst (kt # rest)) =
                 apply_defaults_loop fuel s c d (length des) (map fst rest)"
          using kt sd sc Some md by (cases ct; cases dt) (simp_all add: map_of_entries)
        with same hct show ?thesis by auto
      next
        case True
        then obtain a ces' b des' where ctn: "ct = LNode a ces'" and dtn: "dt = LNode b des'"
          by blast
        from fdt dtn obtain m where fuel: "fuel = Suc m" by (cases fuel) auto
        have sb: "s b = entries_href des'" using hdt dtn by simp
        have "\<exists>s1. apply_defaults_loop m s a b (length des') (map fst des') = Inr s1 \<and>
           holds s1 (LNode a (lmerge ces' des')) \<and>
           (\<forall>x. x \<noteq> a \<and> (\<forall>kt \<in> set des'. \<forall>ct. map_of ces' (fst kt) = Some ct \<longrightarrow>
                   x \<notin> labels ct) \<longrightarrow> s1 x = s x)"
        proof (rule outer)
          show "m < fuel" using fuel by simp
          show "holds s (LNode a ces')" using hct ctn by simp
          show "holds s (LNode b des')" using hdt dtn by simp
          show "lwf (LNode b des')" using lwf_child[OF wf mem] dtn by simp
          then show "distinct (map fst des')" by simp
          show "distinct (map fst ces')" using ts ctn by simp
          show "set des' \<subseteq> set des'" by simp
          show "\<forall>kt \<in> set des'. depth (snd kt) \<le> m"
            using fdt dtn fuel depth_child[of _ des' b m] by auto
          show "a \<notin> labels (LNode b des')" using dj ldt ctn dtn by auto
          show "\<forall>kt \<in> set ces'. a \<notin> labels (snd kt)" using ts ctn by simp
          show "\<forall>kt \<in> set des'. \<forall>ct'. map_of ces' (fst kt) = Some ct' \<longrightarrow>
             tree_shaped ct' \<and> labels ct' \<inter> labels (LNode b des') = {} \<and>
             (\<forall>kt' \<in> set ces'. fst kt' \<noteq> fst kt \<longrightarrow> labels ct' \<inter> labels (snd kt') = {})"
          proof (intro ballI allI impI)
            fix kt ct' assume "kt \<in> set des'" and m': "map_of ces' (fst kt) = Some ct'"
            from m' have cm: "(fst kt, ct') \<in> set ces'" by (rule map_of_SomeD)
            have t1: "tree_shaped ct'"
              using tree_shaped_child[OF ts[unfolded ctn] cm] by simp
            have "labels ct' \<subseteq> labels ct" using labels_child[OF cm, of a] ctn by simp
            moreover have "labels (LNode b des') \<subseteq> labels (LNode d des)"
              using ldt unfolding dtn .
            ultimately have t2: "labels ct' \<inter> labels (LNode b des') = {}"
              using dj by blast
            have t3: "\<forall>kt' \<in> set ces'. fst kt' \<noteq> fst kt \<longrightarrow>
                labels ct' \<inter> labels (snd kt') = {}"
            proof (intro ballI impI)
              fix kt' assume "kt' \<in> set ces'" "fst kt' \<noteq> fst kt"
              then show "labels ct' \<inter> labels (snd kt') = {}"
                using tree_shaped_siblings[OF ts[unfolded ctn] cm, of "fst kt'" "snd kt'"]
                by auto
            qed
            from t1 t2 t3 show "tree_shaped ct' \<and> labels ct' \<inter> labels (LNode b des') = {} \<and>
             (\<forall>kt' \<in> set ces'. fst kt' \<noteq> fst kt \<longrightarrow> labels ct' \<inter> labels (snd kt') = {})"
              by blast
          qed
        qed
        then obtain s1 where n1: "apply_defaults_loop m s a b (length des') (map fst des') = Inr s1"
          and n2: "holds s1 (LNode a (lmerge ces' des'))"
          and n3: "\<forall>x. x \<noteq> a \<and> (\<forall>kt \<in> set des'. \<forall>ct. map_of ces' (fst kt) = Some ct \<longrightarrow>
                   x \<notin> labels ct) \<longrightarrow> s1 x = s x"
          by blast
        have fr: "\<forall>x. x \<notin> labels ct \<longrightarrow> s1 x = s x"
        proof (intro allI impI)
          fix x assume x: "x \<notin> labels ct"
          have "x \<notin> labels ct'" if "map_of ces' k' = Some ct'" for k' ct'
            using labels_child[OF map_of_SomeD[OF that], of a] x ctn by auto
          with x ctn n3 show "s1 x = s x" by auto
        qed
        have "apply_defaults_loop fuel s c d (length des) (map fst (kt # rest)) =
                 apply_defaults_loop fuel s1 c d (length des) (map fst rest)"
          using kt sd sc Some md ctn dtn fuel n1 sb
          by (simp add: map_of_entries keys_entries)
        with n2 fr ctn dtn show ?thesis by auto
      qed
      then obtain s1 where 1: "apply_defaults_loop fuel s c d (length des) (map fst (kt # rest)) =
                 apply_defaults_loop fuel s1 c d (length des) (map fst rest)"
        and hm: "holds s1 (lmerged ct dt)" and fr: "\<forall>x. x \<notin> labels ct \<longrightarrow> s1 x = s x"
        by blast
      have 3: "holds s1 (LNode c ?ces1)"
      proof -
        have "s1 c = entries_href ?ces1"
          using fr cct sc Some by (simp add: entries_href_update href_lmerged)
        moreover have "holds s1 (snd kt')" if "kt' \<in> set ?ces1" for kt'
        proof (cases "fst kt' = k")
          case True
          with set_update_distinct[OF dc that] have "kt' = (k, lmerged ct dt)" by auto
          with hm show ?thesis by simp
        next
          case False
          with 9 that have in_ces: "kt' \<in> set ces" by auto
          with hc have h: "holds s (snd kt')" by simp
          from oth in_ces False have "labels ct \<inter> labels (snd kt') = {}" by auto
          with fr have "\<forall>a \<in> labels (snd kt'). s1 a = s a" by auto
          with h show ?thesis by (rule holds_frame)
        qed
        ultimately show ?thesis by simp
      qed
      have 4: "holds s1 (LNode d des)"
      proof (rule holds_frame[OF hd])
        show "\<forall>a \<in> labels (LNode d des). s1 a = s a" using dj fr by auto
      qed
      have 10: "\<forall>x. x \<noteq> c \<and> (\<forall>ct. map_of ces k = Some ct \<longrightarrow> x \<notin> labels ct) \<longrightarrow> s1 x = s x"
        using fr Some by auto
      from 1 2 3 4 5 6 7 8 9 10 show ?thesis by blast
    qed
    then obtain s1 ces1 where
      1: "apply_defaults_loop fuel s c d (length des) (map fst (kt # rest)) =
          apply_defaults_loop fuel s1 c d (length des) (map fst rest)"
      and 2: "lmerge ces (kt # rest) = lmerge ces1 rest"
      and 3: "holds s1 (LNode c ces1)" and 4: "holds s1 (LNode d des)"
      and 5: "distinct (map fst ces1)"
      and 6: "\<forall>kt \<in> set ces1. c \<notin> labels (snd kt)"
      and 7: "\<forall>k'. k' \<noteq> k \<longrightarrow> map_of ces1 k' = map_of ces k'"
      and 8: "\<forall>kt' \<in> set ces1. fst kt' = k \<longrightarrow>
           labels (snd kt') \<subseteq> labels dt \<union> (case map_of ces k of None \<Rightarrow> {} | Some ct \<Rightarrow> labels ct)"
      and 9: "\<forall>kt' \<in> set ces1. fst kt' \<noteq> k \<longrightarrow> kt' \<in> set ces"
      and 10: "\<forall>x. x \<noteq> c \<and> (\<forall>ct. map_of ces k = Some ct \<longrightarrow> x \<notin> labels ct) \<longrightarrow> s1 x = s x"
      by blast
    \<comment> \<open>The separation of the keys still to visit survives the step.\<close>
    have sep1: "\<forall>kt \<in> set rest. \<forall>ct. map_of ces1 (fst kt) = Some ct \<longrightarrow>
           tree_shaped ct \<and> labels ct \<inter> labels (LNode d des) = {} \<and>
           (\<forall>kt' \<in> set ces1. fst kt' \<noteq> fst kt \<longrightarrow> labels ct \<inter> labels (snd kt') = {})"
    proof (intro ballI allI impI)
      fix kt2 ct2 assume r: "kt2 \<in> set rest" and m2: "map_of ces1 (fst kt2) = Some ct2"
      from r knew have ne: "fst kt2 \<noteq> k" by auto
      with 7 m2 have m2': "map_of ces (fst kt2) = Some ct2" by simp
      from sep r m2' have a: "tree_shaped ct2" and b: "labels ct2 \<inter> labels (LNode d des) = {}"
        and c': "\<forall>kt' \<in> set ces. fst kt' \<noteq> fst kt2 \<longrightarrow> labels ct2 \<inter> labels (snd kt') = {}"
        by auto
      have "labels ct2 \<inter> labels (snd kt') = {}" if "kt' \<in> set ces1" "fst kt' \<noteq> fst kt2" for kt'
      proof (cases "fst kt' = k")
        case False
        with 9 that c' show ?thesis by auto
      next
        case True
        with 8 that have sub8: "labels (snd kt') \<subseteq>
            labels dt \<union> (case map_of ces k of None \<Rightarrow> {} | Some ct \<Rightarrow> labels ct)" by auto
        have "labels ct2 \<inter> labels dt = {}" using b ldt by auto
        moreover have "labels ct2 \<inter> labels ct = {}" if "map_of ces k = Some ct" for ct
          using c' map_of_SomeD[OF that] ne by force
        ultimately show ?thesis using sub8 by (auto split: option.splits)
      qed
      with a b show "tree_shaped ct2 \<and> labels ct2 \<inter> labels (LNode d des) = {} \<and>
           (\<forall>kt' \<in> set ces1. fst kt' \<noteq> fst kt2 \<longrightarrow> labels ct2 \<inter> labels (snd kt') = {})"
        by blast
    qed
    from Cons.IH[OF 3 4 5 sub dr frest 6 sep1] obtain s' where
      r1: "apply_defaults_loop fuel s1 c d (length des) (map fst rest) = Inr s'"
      and r2: "holds s' (LNode c (lmerge ces1 rest))"
      and r3: "\<forall>x. x \<noteq> c \<and> (\<forall>kt \<in> set rest. \<forall>ct. map_of ces1 (fst kt) = Some ct \<longrightarrow>
                   x \<notin> labels ct) \<longrightarrow> s' x = s1 x"
      by blast
    have fin: "s' x = s x" if x: "x \<noteq> c"
      "\<forall>kt \<in> set (kt # rest). \<forall>ct. map_of ces (fst kt) = Some ct \<longrightarrow> x \<notin> labels ct" for x
    proof -
      from x(2) kt have "\<forall>ct. map_of ces k = Some ct \<longrightarrow> x \<notin> labels ct" by simp
      with 10 x(1) have a: "s1 x = s x" by blast
      have "x \<notin> labels ct" if "kt2 \<in> set rest" "map_of ces1 (fst kt2) = Some ct" for kt2 ct
      proof -
        from that(1) knew have "fst kt2 \<noteq> k" by auto
        with 7 that(2) have "map_of ces (fst kt2) = Some ct" by simp
        moreover from that(1) have "kt2 \<in> set (kt # rest)" by simp
        ultimately show ?thesis using x(2) by blast
      qed
      with r3 x(1) have "s' x = s1 x" by blast
      with a show ?thesis by simp
    qed
    show ?case
    proof (intro exI[of _ s'] conjI allI impI)
      show "apply_defaults_loop fuel s c d (length des) (map fst (kt # rest)) = Inr s'"
        using 1 r1 by simp
      show "holds s' (LNode c (lmerge ces (kt # rest)))"
        unfolding 2 by (rule r2)
      fix x
      assume "x \<noteq> c \<and> (\<forall>kt \<in> set (kt # rest). \<forall>ct. map_of ces (fst kt) = Some ct \<longrightarrow>
                   x \<notin> labels ct)"
      then show "s' x = s x" using fin by blast
    qed
  qed
qed

lemma wf_erase: "lwf t \<Longrightarrow> wf_val (erase t)"
proof (induction t)
  case (LLeaf v)
  then show ?case by simp
next
  case (LNode a es)
  have "wf_val (erase (snd kt))" if "kt \<in> set es" for kt
  proof -
    obtain k t where kt: "kt = (k, t)" by (cases kt)
    with that LNode.prems have "lwf t" by auto
    with that kt show ?thesis using LNode.IH[of "(k, t)" t] by simp
  qed
  then show ?case using LNode.prems(1) by (simp add: list_all_iff keys_entries)
qed

text \<open>
  Let the store hold \<^verbatim>\<open>config\<close> at \<open>c\<close> and \<^verbatim>\<open>defaults\<close> at \<open>d\<close>, \<^verbatim>\<open>config\<close>
  sharing no object with itself or with \<^verbatim>\<open>defaults\<close>, every table of \<^verbatim>\<open>defaults\<close>
  binding each key once, and let the recursion limit allow the depth of
  \<^verbatim>\<open>defaults\<close>. Then the run returns; afterwards \<open>c\<close> holds the merged tree, whose
  value is \<open>apply_defaults_spec\<close> of the two values; \<^verbatim>\<open>defaults\<close> and every object
  outside \<^verbatim>\<open>config\<close> are as they were; and a second run on the store so reached,
  where tables are now shared, returns that store unchanged.
\<close>

lemma apply_defaults_run:
  assumes hc: "holds s (LNode c ces)" and hd: "holds s (LNode d des)"
    and ts: "tree_shaped (LNode c ces)"
    and wf: "lwf (LNode d des)"
    and sep: "labels (LNode c ces) \<inter> labels (LNode d des) = {}"
    and fuel: "\<forall>kt \<in> set des. depth (snd kt) \<le> fuel"
  shows "\<exists>s'. apply_defaults fuel s c d = Inr s' \<and>
           holds s' (LNode c (lmerge ces des)) \<and>
           holds s' (LNode d des) \<and>
           entries_erase (lmerge ces des) =
             apply_defaults_spec (entries_erase ces) (entries_erase des) \<and>
           (\<forall>x. x \<notin> labels (LNode c ces) \<longrightarrow> s' x = s x) \<and>
           apply_defaults fuel s' c d = Inr s'"
proof -
  from hd have sd: "s d = entries_href des" by simp
  have cd: "c \<notin> labels (LNode d des)" using sep by auto
  have "\<exists>s'. apply_defaults_loop fuel s c d (length des) (map fst des) = Inr s' \<and>
           holds s' (LNode c (lmerge ces des)) \<and>
           (\<forall>x. x \<noteq> c \<and> (\<forall>kt \<in> set des. \<forall>ct. map_of ces (fst kt) = Some ct \<longrightarrow>
                   x \<notin> labels ct) \<longrightarrow> s' x = s x)"
  proof (rule loop_merge[OF hc hd wf])
    show "distinct (map fst ces)" using ts by simp
    show "set des \<subseteq> set des" by simp
    show "distinct (map fst des)" using wf by simp
    show "\<forall>kt \<in> set des. depth (snd kt) \<le> fuel" by (rule fuel)
    show "c \<notin> labels (LNode d des)" by (rule cd)
    show "\<forall>kt \<in> set ces. c \<notin> labels (snd kt)" using ts by simp
    show "\<forall>kt \<in> set des. \<forall>ct. map_of ces (fst kt) = Some ct \<longrightarrow>
           tree_shaped ct \<and> labels ct \<inter> labels (LNode d des) = {} \<and>
           (\<forall>kt' \<in> set ces. fst kt' \<noteq> fst kt \<longrightarrow> labels ct \<inter> labels (snd kt') = {})"
    proof (intro ballI allI impI)
      fix kt ct assume "kt \<in> set des" and m: "map_of ces (fst kt) = Some ct"
      from m have cm: "(fst kt, ct) \<in> set ces" by (rule map_of_SomeD)
      have t1: "tree_shaped ct" using tree_shaped_child[OF ts cm] by simp
      have "labels ct \<subseteq> labels (LNode c ces)" using cm by (rule labels_child)
      with sep have t2: "labels ct \<inter> labels (LNode d des) = {}" by blast
      have t3: "\<forall>kt' \<in> set ces. fst kt' \<noteq> fst kt \<longrightarrow> labels ct \<inter> labels (snd kt') = {}"
      proof (intro ballI impI)
        fix kt' assume "kt' \<in> set ces" "fst kt' \<noteq> fst kt"
        then show "labels ct \<inter> labels (snd kt') = {}"
          using tree_shaped_siblings[OF ts cm, of "fst kt'" "snd kt'"] by auto
      qed
      from t1 t2 t3 show "tree_shaped ct \<and> labels ct \<inter> labels (LNode d des) = {} \<and>
           (\<forall>kt' \<in> set ces. fst kt' \<noteq> fst kt \<longrightarrow> labels ct \<inter> labels (snd kt') = {})"
        by blast
    qed
  qed
  then obtain s' where r1: "apply_defaults_loop fuel s c d (length des) (map fst des) = Inr s'"
    and r2: "holds s' (LNode c (lmerge ces des))"
    and r3: "\<forall>x. x \<noteq> c \<and> (\<forall>kt \<in> set des. \<forall>ct. map_of ces (fst kt) = Some ct \<longrightarrow>
                   x \<notin> labels ct) \<longrightarrow> s' x = s x"
    by blast
  have run1: "apply_defaults fuel s c d = Inr s'"
    using r1 sd by (simp add: apply_defaults_def keys_entries)
  have frame: "s' x = s x" if "x \<notin> labels (LNode c ces)" for x
  proof -
    have "x \<notin> labels ct" if "map_of ces k = Some ct" for k ct
      using labels_child[OF map_of_SomeD[OF that], of c] \<open>x \<notin> labels (LNode c ces)\<close> by auto
    moreover from that have "x \<noteq> c" by auto
    ultimately show ?thesis using r3 by blast
  qed
  have hd': "holds s' (LNode d des)"
  proof (rule holds_frame[OF hd])
    show "\<forall>a \<in> labels (LNode d des). s' a = s a" using sep frame by blast
  qed
  have lc: "\<forall>kt \<in> set ces. leaves_ok (snd kt)"
    using holds_leaves_ok[OF hc] by simp
  have ld: "\<forall>kt \<in> set des. leaves_ok (snd kt)"
    using holds_leaves_ok[OF hd] by simp
  have er: "entries_erase (lmerge ces des) =
      apply_defaults_spec (entries_erase ces) (entries_erase des)"
    using lc ld by (rule erase_lmerge)
  have "wf_val (erase (LNode d des))" using wf by (rule wf_erase)
  then have "wf_dict (entries_erase des)" by (simp add: wf_dict_def)
  then have "assignments (entries_erase (lmerge ces des)) (entries_erase des) = 0"
    unfolding er by (rule assignments_second_run)
  with r2 hd' wf have "apply_defaults_loop fuel s' c d (length des) (map fst des) = Inr s'"
    using fuel by (intro loop_no_write) auto
  moreover from hd' have "s' d = entries_href des" by simp
  ultimately have run2: "apply_defaults fuel s' c d = Inr s'"
    by (simp add: apply_defaults_def keys_entries)
  from run1 r2 hd' er frame run2 show ?thesis by blast
qed

section \<open>Properties of \<^verbatim>\<open>apply_defaults\<close>\<close>

lemma map_of_lmerge:
  "distinct (map fst des) \<Longrightarrow>
   map_of (lmerge ces des) key =
     (case map_of ces key of
        None \<Rightarrow> map_of des key
      | Some ct \<Rightarrow>
          (case map_of des key of
             None \<Rightarrow> Some ct
           | Some dt \<Rightarrow> Some (lmerged ct dt)))"
proof (induction des arbitrary: ces)
  case Nil
  then show ?case by (simp split: option.splits)
next
  case (Cons kv rest)
  obtain k dv where kv: "kv = (k, dv)" by (cases kv)
  from Cons.prems kv have d: "distinct (map fst rest)" and nk: "map_of rest k = None"
    by (auto simp: map_of_eq_None_iff)
  show ?case
  proof (cases "key = k")
    case True
    with nk show ?thesis
      unfolding kv lmerge_step Cons.IH[OF d]
      by (simp add: update_conv' map_add_def split: option.splits)
  next
    case False
    then show ?thesis
      unfolding kv lmerge_step Cons.IH[OF d]
      by (simp add: update_conv' map_add_def split: option.splits)
  qed
qed

lemma holds_agree: "holds s1 t \<Longrightarrow> holds s2 t \<Longrightarrow> \<forall>x \<in> labels t. s1 x = s2 x"
proof (induction t)
  case (LLeaf v)
  then show ?case by simp
next
  case (LNode a es)
  have "\<forall>x \<in> labels (snd kt). s1 x = s2 x" if "kt \<in> set es" for kt
  proof -
    obtain k t where kt: "kt = (k, t)" by (cases kt)
    with that LNode.prems have "holds s1 t" "holds s2 t" by auto
    with that kt show ?thesis using LNode.IH[of "(k, t)" t] by simp
  qed
  with LNode.prems show ?case by auto
qed

lemma lwf_wf_dict: "lwf (LNode d des) \<Longrightarrow> wf_dict (entries_erase des)"
  using wf_erase[of "LNode d des"] by (simp add: wf_dict_def)

lemma nested_run:
  assumes hc: "holds s (LNode c ces)" and hd: "holds s (LNode d des)"
    and ts: "tree_shaped (LNode c ces)"
    and wf: "lwf (LNode d des)"
    and sep: "labels (LNode c ces) \<inter> labels (LNode d des) = {}"
    and fuel: "\<forall>kt \<in> set des. depth (snd kt) \<le> fuel"
    and mc: "map_of ces key = Some (LNode a ces')"
    and md: "map_of des key = Some (LNode b des')"
  shows "\<exists>n s1. fuel = Suc n \<and> apply_defaults n s a b = Inr s1 \<and>
           holds s1 (LNode a (lmerge ces' des'))"
proof -
  note cm = map_of_SomeD[OF mc] and dm = map_of_SomeD[OF md]
  from fuel dm have "depth (LNode b des') \<le> fuel" by force
  then obtain n where n: "fuel = Suc n" by (cases fuel) auto
  have la: "labels (LNode a ces') \<subseteq> labels (LNode c ces)" using cm by (rule labels_child)
  have lb: "labels (LNode b des') \<subseteq> labels (LNode d des)" using dm by (rule labels_child)
  have "\<exists>s1. apply_defaults n s a b = Inr s1 \<and>
           holds s1 (LNode a (lmerge ces' des')) \<and>
           holds s1 (LNode b des') \<and>
           entries_erase (lmerge ces' des') =
             apply_defaults_spec (entries_erase ces') (entries_erase des') \<and>
           (\<forall>x. x \<notin> labels (LNode a ces') \<longrightarrow> s1 x = s x) \<and>
           apply_defaults n s1 a b = Inr s1"
  proof (rule apply_defaults_run)
    show "holds s (LNode a ces')" using hc cm by (rule holds_child)
    show "holds s (LNode b des')" using hd dm by (rule holds_child)
    show "tree_shaped (LNode a ces')" using tree_shaped_child[OF ts cm] by simp
    show "lwf (LNode b des')" using wf dm by (rule lwf_child)
    show "labels (LNode a ces') \<inter> labels (LNode b des') = {}" using la lb sep by blast
    show "\<forall>kt \<in> set des'. depth (snd kt) \<le> n"
      using \<open>depth (LNode b des') \<le> fuel\<close> n depth_child[of _ des' b n] by auto
  qed
  with n show ?thesis by blast
qed

text \<open>
  C7, for a configuration that shares no object. Let the store hold \<^verbatim>\<open>config\<close> at
  \<open>c\<close> and \<^verbatim>\<open>defaults\<close> at \<open>d\<close>, \<^verbatim>\<open>config\<close> sharing no object with itself or with
  \<^verbatim>\<open>defaults\<close>, every table of \<^verbatim>\<open>defaults\<close> binding each key once, and let the
  recursion limit allow the depth of \<^verbatim>\<open>defaults\<close>. Then \<^verbatim>\<open>apply_defaults\<close> returns,
  and in the store it leaves: the object \<open>c\<close> holds the merged tree; \<^verbatim>\<open>defaults\<close> and
  every object outside \<^verbatim>\<open>config\<close> are as they were;
  a key of \<^verbatim>\<open>defaults\<close> that \<^verbatim>\<open>config\<close> lacks is bound in \<open>c\<close> to what \<^verbatim>\<open>defaults\<close>
  binds it to, a table by reference;
  a key bound to a table on both sides keeps the object it had in \<^verbatim>\<open>config\<close>, which
  holds the merge of the two tables, the result of the same function on them;
  any other key of \<^verbatim>\<open>config\<close> keeps its value, and no object below it is written to;
  no key appears that neither side had.
  At any depth: every path of keys that leads to a value in \<^verbatim>\<open>config\<close> still leads to
  a value after the run, and to the same value when that value is not a table.
\<close>

theorem apply_defaults_fills_missing_only:
  assumes hc: "holds s (LNode c ces)" and hd: "holds s (LNode d des)"
    and ts: "tree_shaped (LNode c ces)"
    and wf: "lwf (LNode d des)"
    and sep: "labels (LNode c ces) \<inter> labels (LNode d des) = {}"
    and fuel: "\<forall>kt \<in> set des. depth (snd kt) \<le> fuel"
  shows "\<exists>s'. apply_defaults fuel s c d = Inr s' \<and>
     holds s' (LNode c (lmerge ces des)) \<and>
     holds s' (LNode d des) \<and>
     (\<forall>x. x \<notin> labels (LNode c ces) \<longrightarrow> s' x = s x) \<and>
     (\<forall>key dt. map_of des key = Some dt \<and> map_of ces key = None
        \<longrightarrow> map_of (lmerge ces des) key = Some dt \<and>
            map_of (s' c) key = map_of (s d) key) \<and>
     (\<forall>key a ces' b des'.
        map_of ces key = Some (LNode a ces') \<and> map_of des key = Some (LNode b des')
        \<longrightarrow> map_of (lmerge ces des) key = Some (LNode a (lmerge ces' des')) \<and>
            (\<exists>n s1. fuel = Suc n \<and> apply_defaults n s a b = Inr s1 \<and>
               holds s1 (LNode a (lmerge ces' des')))) \<and>
     (\<forall>key ct. map_of ces key = Some ct \<and>
          \<not> (\<exists>a ces' b des'. ct = LNode a ces' \<and> map_of des key = Some (LNode b des'))
        \<longrightarrow> map_of (lmerge ces des) key = Some ct \<and>
            (\<forall>x \<in> labels ct. s' x = s x)) \<and>
     (\<forall>key. map_of ces key = None \<and> map_of des key = None
        \<longrightarrow> map_of (s' c) key = None) \<and>
     (\<forall>path v. lookup_path (entries_erase ces) path = Some v
        \<longrightarrow> lookup_path (entries_erase (lmerge ces des)) path \<noteq> None) \<and>
     (\<forall>path v. lookup_path (entries_erase ces) path = Some v \<and> \<not> is_table v
        \<longrightarrow> lookup_path (entries_erase (lmerge ces des)) path = Some v)"
proof -
  from apply_defaults_run[OF hc hd ts wf sep fuel] obtain s' where
    run: "apply_defaults fuel s c d = Inr s'"
    and hc': "holds s' (LNode c (lmerge ces des))"
    and hd': "holds s' (LNode d des)"
    and er: "entries_erase (lmerge ces des) =
             apply_defaults_spec (entries_erase ces) (entries_erase des)"
    and fr: "\<forall>x. x \<notin> labels (LNode c ces) \<longrightarrow> s' x = s x"
    by blast
  from wf have dist: "distinct (map fst des)" by simp
  note m = map_of_lmerge[OF dist, of ces]
  from hc' have sc': "s' c = entries_href (lmerge ces des)" by simp
  from hd have sd: "s d = entries_href des" by simp
  have 1: "map_of (lmerge ces des) key = Some dt \<and> map_of (s' c) key = map_of (s d) key"
    if "map_of des key = Some dt \<and> map_of ces key = None" for key dt
    using that by (simp add: m sc' sd map_of_entries)
  have 2: "map_of (lmerge ces des) key = Some (LNode a (lmerge ces' des')) \<and>
            (\<exists>n s1. fuel = Suc n \<and> apply_defaults n s a b = Inr s1 \<and>
               holds s1 (LNode a (lmerge ces' des')))"
    if "map_of ces key = Some (LNode a ces') \<and> map_of des key = Some (LNode b des')"
    for key a ces' b des'
  proof
    show "map_of (lmerge ces des) key = Some (LNode a (lmerge ces' des'))"
      using that by (simp add: m)
    show "\<exists>n s1. fuel = Suc n \<and> apply_defaults n s a b = Inr s1 \<and>
               holds s1 (LNode a (lmerge ces' des'))"
      using that nested_run[OF hc hd ts wf sep fuel] by blast
  qed
  have 3: "map_of (lmerge ces des) key = Some ct \<and> (\<forall>x \<in> labels ct. s' x = s x)"
    if a: "map_of ces key = Some ct \<and>
          \<not> (\<exists>a ces' b des'. ct = LNode a ces' \<and> map_of des key = Some (LNode b des'))"
    for key ct
  proof -
    have keep: "map_of (lmerge ces des) key = Some ct"
    proof (cases "map_of des key")
      case None
      with a show ?thesis by (simp add: m)
    next
      case (Some dt)
      with a have "lmerged ct dt = ct" by (cases ct; cases dt) auto
      with a Some show ?thesis by (simp add: m)
    qed
    from keep have "(key, ct) \<in> set (lmerge ces des)" by (rule map_of_SomeD)
    with hc' have h1: "holds s' ct" by (rule holds_child)
    from a have "(key, ct) \<in> set ces" by (simp add: map_of_SomeD)
    with hc have h2: "holds s ct" by (rule holds_child)
    from h1 h2 have "\<forall>x \<in> labels ct. s' x = s x" by (rule holds_agree)
    with keep show ?thesis by simp
  qed
  have 4: "map_of (s' c) key = None"
    if "map_of ces key = None \<and> map_of des key = None" for key
    using that by (simp add: m sc' map_of_entries)
  note wd = lwf_wf_dict[OF wf]
  have 5: "lookup_path (entries_erase (lmerge ces des)) path \<noteq> None"
    if "lookup_path (entries_erase ces) path = Some v" for path v
    unfolding er using lookup_path_spec[OF wd that] by simp
  have 6: "lookup_path (entries_erase (lmerge ces des)) path = Some v"
    if "lookup_path (entries_erase ces) path = Some v \<and> \<not> is_table v" for path v
  proof -
    from that have "merged_value v dv = v" for dv by (simp add: merged_value_not_table)
    with lookup_path_spec[OF wd, of "entries_erase ces" path v] that show ?thesis
      unfolding er by (simp split: option.splits)
  qed
  from run hc' hd' fr 1 2 3 4 5 6 show ?thesis by blast
qed

theorem apply_defaults_fills_missing_only_witness:
  "holds example_store (LNode 0 example_config_entries) \<and>
   holds example_store (LNode 2 example_defaults_entries) \<and>
   tree_shaped (LNode 0 example_config_entries) \<and>
   lwf (LNode 2 example_defaults_entries) \<and>
   labels (LNode 0 example_config_entries) \<inter> labels (LNode 2 example_defaults_entries) = {} \<and>
   list_all (\<lambda>kt. depth (snd kt) \<le> 1) example_defaults_entries \<and>
   (\<exists>s'. apply_defaults 1 example_store 0 2 = Inr s' \<and>
      s' 0 = [(''a'', Ref 1), (''b'', Ref 4)] \<and>
      s' 1 = [(''x'', Leaf (Integer 1)), (''y'', Leaf (Integer 3))] \<and>
      s' 2 = example_store 2 \<and> s' 3 = example_store 3 \<and> s' 4 = example_store 4 \<and>
      map_of (s' 0) ''b'' = map_of (example_store 2) ''b'' \<and>
      map_of (s' 0) ''c'' = None \<and>
      (\<exists>s1. apply_defaults 0 example_store 1 3 = Inr s1 \<and>
         s1 1 = [(''x'', Leaf (Integer 1)), (''y'', Leaf (Integer 3))]) \<and>
      lookup_path (entries_erase (lmerge example_config_entries example_defaults_entries))
        [''a'', ''x''] = Some (Integer 1))"
proof -
  have h: "holds example_store (LNode 0 example_config_entries)"
    "holds example_store (LNode 2 example_defaults_entries)"
    "tree_shaped (LNode 0 example_config_entries)"
    "lwf (LNode 2 example_defaults_entries)"
    "labels (LNode 0 example_config_entries) \<inter> labels (LNode 2 example_defaults_entries) = {}"
    "\<forall>kt \<in> set example_defaults_entries. depth (snd kt) \<le> 1"
    by (simp_all add: example_store_def example_config_entries_def
        example_defaults_entries_def)
  have l: "list_all (\<lambda>kt. depth (snd kt) \<le> 1) example_defaults_entries"
    by (simp add: example_defaults_entries_def)
  have e: "lmerge example_config_entries example_defaults_entries =
     [(''a'', LNode 1 [(''x'', LLeaf (Integer 1)), (''y'', LLeaf (Integer 3))]),
      (''b'', LNode 4 [(''z'', LLeaf (Integer 0))])]"
    by (simp add: example_config_entries_def example_defaults_entries_def)
  have ma: "map_of example_config_entries ''a'' = Some (LNode 1 [(''x'', LLeaf (Integer 1))]) \<and>
     map_of example_defaults_entries ''a'' =
       Some (LNode 3 [(''x'', LLeaf (Integer 2)), (''y'', LLeaf (Integer 3))])"
    by (simp add: example_config_entries_def example_defaults_entries_def)
  have mb: "map_of example_defaults_entries ''b'' = Some (LNode 4 [(''z'', LLeaf (Integer 0))]) \<and>
     map_of example_config_entries ''b'' = None"
    by (simp add: example_config_entries_def example_defaults_entries_def)
  have mc: "map_of example_config_entries ''c'' = None \<and>
     map_of example_defaults_entries ''c'' = None"
    by (simp add: example_config_entries_def example_defaults_entries_def)
  have lp: "lookup_path (entries_erase example_config_entries) [''a'', ''x''] = Some (Integer 1) \<and>
     \<not> is_table (Integer 1)"
    by (simp add: example_config_entries_def)
  from apply_defaults_fills_missing_only[OF h] obtain s' where
    r: "apply_defaults 1 example_store 0 2 = Inr s'"
    and hc: "holds s' (LNode 0 (lmerge example_config_entries example_defaults_entries))"
    and hd: "holds s' (LNode 2 example_defaults_entries)"
    and f1: "\<forall>key dt. map_of example_defaults_entries key = Some dt \<and>
          map_of example_config_entries key = None
        \<longrightarrow> map_of (lmerge example_config_entries example_defaults_entries) key = Some dt \<and>
            map_of (s' 0) key = map_of (example_store 2) key"
    and f2: "\<forall>key a ces' b des'.
        map_of example_config_entries key = Some (LNode a ces') \<and>
        map_of example_defaults_entries key = Some (LNode b des')
        \<longrightarrow> map_of (lmerge example_config_entries example_defaults_entries) key =
              Some (LNode a (lmerge ces' des')) \<and>
            (\<exists>n s1. (1::nat) = Suc n \<and> apply_defaults n example_store a b = Inr s1 \<and>
               holds s1 (LNode a (lmerge ces' des')))"
    and f4: "\<forall>key. map_of example_config_entries key = None \<and>
          map_of example_defaults_entries key = None
        \<longrightarrow> map_of (s' 0) key = None"
    and f6: "\<forall>path v. lookup_path (entries_erase example_config_entries) path = Some v \<and>
          \<not> is_table v
        \<longrightarrow> lookup_path
              (entries_erase (lmerge example_config_entries example_defaults_entries)) path =
            Some v"
    by blast
  from hc have s0: "s' 0 = [(''a'', Ref 1), (''b'', Ref 4)]"
    and s1: "s' 1 = [(''x'', Leaf (Integer 1)), (''y'', Leaf (Integer 3))]"
    unfolding e by simp_all
  from hd have s2: "s' 2 = example_store 2" "s' 3 = example_store 3" "s' 4 = example_store 4"
    by (simp_all add: example_defaults_entries_def example_store_def)
  from f1 mb have b: "map_of (s' 0) ''b'' = map_of (example_store 2) ''b''" by blast
  from f4 mc have c: "map_of (s' 0) ''c'' = None" by blast
  from f2 ma obtain n t where
    "(1::nat) = Suc n" "apply_defaults n example_store 1 3 = Inr t"
    "holds t (LNode 1 (lmerge [(''x'', LLeaf (Integer 1))]
        [(''x'', LLeaf (Integer 2)), (''y'', LLeaf (Integer 3))]))"
    by blast
  then have n: "\<exists>s1. apply_defaults 0 example_store 1 3 = Inr s1 \<and>
         s1 1 = [(''x'', Leaf (Integer 1)), (''y'', Leaf (Integer 3))]"
    by simp
  from f6 lp have p: "lookup_path
     (entries_erase (lmerge example_config_entries example_defaults_entries))
        [''a'', ''x''] = Some (Integer 1)" by blast
  from h(1-5) l r s0 s1 s2 b c n p show ?thesis by blast
qed

text \<open>
  Where objects are shared the run does otherwise. With the two keys of \<^verbatim>\<open>config\<close>
  bound to one empty table, both nested calls write into that table: it ends with
  \<^verbatim>\<open>x\<close> and \<^verbatim>\<open>y\<close>, so \<^verbatim>\<open>config["a"]\<close> has a key \<^verbatim>\<open>y\<close> that neither it nor
  \<^verbatim>\<open>defaults["a"]\<close> had, where the merge by the rule gives \<^verbatim>\<open>{a: {x: 1}, b: {y: 2}}\<close>.
  With \<^verbatim>\<open>defaults\<close> itself a value of \<^verbatim>\<open>config\<close>, the nested call adds a key to
  \<^verbatim>\<open>defaults\<close> while the outer loop iterates over it, and the run raises
  \<^verbatim>\<open>RuntimeError\<close>. With two tables that lie below themselves the nested calls
  never end, and the run raises \<^verbatim>\<open>RecursionError\<close>.
\<close>

theorem apply_defaults_shared_counterexample:
  "apply_defaults 1 config_holds_defaults_store 0 1 = Inl RuntimeError \<and>
   apply_defaults 2 cyclic_store 0 1 = Inl RecursionError \<and>
   (case apply_defaults 1 shared_config_store 0 2 of
      Inl e \<Rightarrow> False
    | Inr s' \<Rightarrow>
        s' 0 = [(''a'', Ref 1), (''b'', Ref 1)] \<and>
        s' 1 = [(''x'', Leaf (Integer 1)), (''y'', Leaf (Integer 2))] \<and>
        s' 3 = [(''x'', Leaf (Integer 1))])"
  by (simp add: apply_defaults_def config_holds_defaults_store_def shared_config_store_def
      cyclic_store_def)

text \<open>
  C8, for a configuration that shares no object. Let the store hold \<^verbatim>\<open>config\<close> at
  \<open>c\<close> and \<^verbatim>\<open>defaults\<close> at \<open>d\<close>, \<^verbatim>\<open>config\<close> sharing no object with itself or with
  \<^verbatim>\<open>defaults\<close>, every table of \<^verbatim>\<open>defaults\<close> binding each key once, and let the
  recursion limit allow the depth of \<^verbatim>\<open>defaults\<close>. Then the run returns a store on
  which a second run with the same \<^verbatim>\<open>defaults\<close> returns that very store: the second
  run writes to no object, although the first has left tables of \<^verbatim>\<open>defaults\<close> shared
  with \<^verbatim>\<open>config\<close>.
\<close>

theorem apply_defaults_idempotent:
  assumes "holds s (LNode c ces)" and "holds s (LNode d des)"
    and "tree_shaped (LNode c ces)"
    and "lwf (LNode d des)"
    and "labels (LNode c ces) \<inter> labels (LNode d des) = {}"
    and "\<forall>kt \<in> set des. depth (snd kt) \<le> fuel"
  shows "\<exists>s'. apply_defaults fuel s c d = Inr s' \<and> apply_defaults fuel s' c d = Inr s'"
  using apply_defaults_run[OF assms] by blast

theorem apply_defaults_idempotent_witness:
  "holds example_store (LNode 0 example_config_entries) \<and>
   holds example_store (LNode 2 example_defaults_entries) \<and>
   tree_shaped (LNode 0 example_config_entries) \<and>
   lwf (LNode 2 example_defaults_entries) \<and>
   labels (LNode 0 example_config_entries) \<inter> labels (LNode 2 example_defaults_entries) = {} \<and>
   list_all (\<lambda>kt. depth (snd kt) \<le> 1) example_defaults_entries \<and>
   (\<exists>s'. apply_defaults 1 example_store 0 2 = Inr s' \<and> apply_defaults 1 s' 0 2 = Inr s')"
proof -
  have h: "holds example_store (LNode 0 example_config_entries)"
    "holds example_store (LNode 2 example_defaults_entries)"
    "tree_shaped (LNode 0 example_config_entries)"
    "lwf (LNode 2 example_defaults_entries)"
    "labels (LNode 0 example_config_entries) \<inter> labels (LNode 2 example_defaults_entries) = {}"
    "\<forall>kt \<in> set example_defaults_entries. depth (snd kt) \<le> 1"
    by (simp_all add: example_store_def example_config_entries_def
        example_defaults_entries_def)
  have l: "list_all (\<lambda>kt. depth (snd kt) \<le> 1) example_defaults_entries"
    by (simp add: example_defaults_entries_def)
  from apply_defaults_idempotent[OF h] h(1-5) l show ?thesis by blast
qed

text \<open>
  With a table \<^verbatim>\<open>B\<close> that is both \<^verbatim>\<open>config["b"]\<close> and \<^verbatim>\<open>defaults["a"]\<close> the second
  run changes \<^verbatim>\<open>config\<close> again. The first run merges the empty \<^verbatim>\<open>B\<close> into
  \<^verbatim>\<open>config["a"]\<close>, then writes \<^verbatim>\<open>n\<close> into \<^verbatim>\<open>B\<close>; the second finds \<^verbatim>\<open>n\<close> in
  \<^verbatim>\<open>defaults["a"]\<close> and adds it to \<^verbatim>\<open>config["a"]\<close>, which was empty after the first.
\<close>

theorem apply_defaults_twice_counterexample:
  "(case apply_defaults 1 shared_defaults_store 0 3 of
      Inl e \<Rightarrow> False
    | Inr s1 \<Rightarrow>
        s1 0 = [(''a'', Ref 1), (''b'', Ref 2)] \<and> s1 1 = [] \<and>
        (case apply_defaults 1 s1 0 3 of
           Inl e \<Rightarrow> False
         | Inr s2 \<Rightarrow>
             s2 0 = [(''a'', Ref 1), (''b'', Ref 2)] \<and>
             s2 1 = [(''n'', Leaf (Integer 1))]))"
  by (simp add: apply_defaults_def shared_defaults_store_def)

text \<open>
  The run of the example store, the recursion limit, and two tables that lie below
  themselves: the nested call never ends, whatever the limit.
\<close>

lemma apply_defaults_example:
  "case apply_defaults 1 example_store 0 2 of
     Inl e \<Rightarrow> False
   | Inr s' \<Rightarrow>
       s' 0 = [(''a'', Ref 1), (''b'', Ref 4)] \<and>
       s' 1 = [(''x'', Leaf (Integer 1)), (''y'', Leaf (Integer 3))] \<and>
       s' 2 = example_store 2 \<and> s' 3 = example_store 3 \<and> s' 4 = example_store 4 \<and>
       apply_defaults 1 s' 0 2 = Inr s'"
  by (simp add: apply_defaults_def example_store_def)

lemma apply_defaults_recursion_limit:
  "apply_defaults 0 example_store 0 2 = Inl RecursionError"
  by (simp add: apply_defaults_def example_store_def)

lemma apply_defaults_run_example:
  "holds example_store (LNode 0 example_config_entries) \<and>
   holds example_store (LNode 2 example_defaults_entries) \<and>
   tree_shaped (LNode 0 example_config_entries) \<and>
   lwf (LNode 2 example_defaults_entries) \<and>
   labels (LNode 0 example_config_entries) \<inter> labels (LNode 2 example_defaults_entries) = {} \<and>
   entries_erase (lmerge example_config_entries example_defaults_entries) =
     [(''a'', Table [(''x'', Integer 1), (''y'', Integer 3)]),
      (''b'', Table [(''z'', Integer 0)])] \<and>
   (\<exists>s'. apply_defaults 1 example_store 0 2 = Inr s' \<and>
      holds s' (LNode 0 (lmerge example_config_entries example_defaults_entries)) \<and>
      apply_defaults 1 s' 0 2 = Inr s')"
proof -
  have h: "holds example_store (LNode 0 example_config_entries)"
    "holds example_store (LNode 2 example_defaults_entries)"
    "tree_shaped (LNode 0 example_config_entries)"
    "lwf (LNode 2 example_defaults_entries)"
    "labels (LNode 0 example_config_entries) \<inter> labels (LNode 2 example_defaults_entries) = {}"
    "\<forall>kt \<in> set example_defaults_entries. depth (snd kt) \<le> 1"
    by (simp_all add: example_store_def example_config_entries_def
        example_defaults_entries_def)
  have e: "entries_erase (lmerge example_config_entries example_defaults_entries) =
     [(''a'', Table [(''x'', Integer 1), (''y'', Integer 3)]),
      (''b'', Table [(''z'', Integer 0)])]"
    by (simp add: example_config_entries_def example_defaults_entries_def)
  from apply_defaults_run[OF h] h e show ?thesis by blast
qed

lemma apply_defaults_cyclic: "apply_defaults fuel cyclic_store 0 1 = Inl RecursionError"
proof -
  have c0: "cyclic_store 0 = [(''k'', Ref 0)]" and c1: "cyclic_store (Suc 0) = [(''k'', Ref (Suc 0))]"
    by (simp_all add: cyclic_store_def)
  have "apply_defaults_loop fuel cyclic_store 0 1 1 [''k''] = Inl RecursionError"
  proof (induction fuel)
    case 0
    show ?case by (simp add: c0 c1)
  next
    case (Suc n)
    then show ?case by (simp add: c0 c1)
  qed
  then show ?thesis by (simp add: apply_defaults_def c1)
qed

end
